theory Spec2Isabelle
  imports Main "HOL-Library.Sublist"
begin

section \<open>Text, characters and the helpers of the standard library\<close>

text \<open>
  The analyzer reads a file in text mode, so \<open>content\<close> is a Python \<open>str\<close>: a sequence of
  Unicode code points, with the line ends of the file already turned into the newline
  character. A code point is modelled as its number, a string as the list of its code
  points; \<open>lit\<close> turns an ASCII literal into such a string.
\<close>

type_synonym codepoint = nat

type_synonym str = "codepoint list"

abbreviation (input) lit :: "string \<Rightarrow> str" where
  "lit s \<equiv> map of_char s"

definition nl :: codepoint where "nl = 10"       \<comment> \<open>the newline character\<close>

definition lt :: codepoint where "lt = 60"       \<comment> \<open>the character \<open><\<close>\<close>

definition gt :: codepoint where "gt = 62"       \<comment> \<open>the character \<open>>\<close>\<close>

definition slash :: codepoint where "slash = 47" \<comment> \<open>the character \<open>/\<close>\<close>

text \<open>
  \<open>\s\<close> in a \<open>str\<close> pattern and \<open>str.strip()\<close> use the same test, Unicode white space:
  the ASCII controls 9 to 13 and 28 to 31, the space, and the code points
  U+0085, U+00A0, U+1680, U+2000 to U+200A, U+2028, U+2029, U+202F, U+205F and U+3000.
\<close>

definition isspace :: "codepoint \<Rightarrow> bool" where
  "isspace c \<longleftrightarrow>
     (9 \<le> c \<and> c \<le> 13) \<or> (28 \<le> c \<and> c \<le> 32) \<or> c = 133 \<or> c = 160 \<or> c = 5760 \<or>
     (8192 \<le> c \<and> c \<le> 8202) \<or> c = 8232 \<or> c = 8233 \<or> c = 8239 \<or> c = 8287 \<or> c = 12288"

text \<open>The class \<open>[a-zA-Z0-9:]\<close> of the tag name, and the class \<open>[^>]\<close>.\<close>

definition name_char :: "codepoint \<Rightarrow> bool" where
  "name_char c \<longleftrightarrow>
     (97 \<le> c \<and> c \<le> 122) \<or> (65 \<le> c \<and> c \<le> 90) \<or> (48 \<le> c \<and> c \<le> 57) \<or> c = 58"

definition not_gt :: "codepoint \<Rightarrow> bool" where
  "not_gt c \<longleftrightarrow> c \<noteq> gt"

text \<open>\<open>s.strip()\<close>: white space removed at both ends.\<close>

definition strip :: "str \<Rightarrow> str" where
  "strip s = rev (dropWhile isspace (rev (dropWhile isspace s)))"

text \<open>
  \<open>s.count(c, lo, hi)\<close> for a needle of one character: the occurrences of \<open>c\<close> in the slice
  \<open>s[lo:hi]\<close> (a slice is cut at the end of the string, as \<open>take\<close> and \<open>drop\<close> are).
\<close>

definition count :: "str \<Rightarrow> codepoint \<Rightarrow> nat \<Rightarrow> nat \<Rightarrow> nat" where
  "count s c lo hi = length (filter (\<lambda>x. x = c) (take (hi - lo) (drop lo s)))"

text \<open>The decimal digits of a number, as an f-string writes \<open>{line_num}\<close>.\<close>

fun decimal :: "nat \<Rightarrow> str" where
  "decimal n = (if n < 10 then [48 + n] else decimal (n div 10) @ [48 + n mod 10])"

declare decimal.simps [simp del]

section \<open>The regular expression\<close>

text \<open>
  The fragment of Python's \<open>re\<close> that the pattern
  \<^verbatim>\<open><(/?)([a-zA-Z0-9:]+)(?:\s+[^>]*?)?(/?\s*)>\<close>
  is written in. Every repetition of the pattern repeats a single character class.
\<close>

datatype regex =
    Atom "codepoint \<Rightarrow> bool"      \<comment> \<open>one character of a class (a literal is the class of one character)\<close>
  | Opt regex                      \<comment> \<open>\<open>r?\<close>, greedy\<close>
  | Star "codepoint \<Rightarrow> bool"      \<comment> \<open>\<open>[..]*\<close>, greedy\<close>
  | LazyStar "codepoint \<Rightarrow> bool"  \<comment> \<open>\<open>[..]*?\<close>, lazy\<close>
  | Seq regex regex
  | Group nat regex                \<comment> \<open>a capturing group and its number\<close>

text \<open>\<open>[..]+\<close> is one character of the class, then \<open>[..]*\<close>.\<close>

definition Plus :: "(codepoint \<Rightarrow> bool) \<Rightarrow> regex" where
  "Plus p = Seq (Atom p) (Star p)"

definition Lit :: "codepoint \<Rightarrow> regex" where
  "Lit c = Atom (\<lambda>x. x = c)"

type_synonym caps = "nat \<Rightarrow> str option"

type_synonym cont = "str \<Rightarrow> caps \<Rightarrow> (str \<times> caps) option"

text \<open>
  A backtracking matcher, as \<open>re\<close> is: \<open>rmatch r k s c\<close> matches \<open>r\<close> at the front of \<open>s\<close> and
  hands what is left of the text, with the groups captured so far, to the continuation \<open>k\<close>;
  where the continuation fails it tries the next alternative, in the order of priority of
  the engine (a greedy operator the longest first, a lazy one the shortest first). The result
  is the first success: the text left after the whole match, and the groups.
\<close>

fun star :: "(codepoint \<Rightarrow> bool) \<Rightarrow> cont \<Rightarrow> cont" where
  "star p k [] c = k [] c"
| "star p k (x # xs) c =
     (if p x then (case star p k xs c of Some r \<Rightarrow> Some r | None \<Rightarrow> k (x # xs) c)
      else k (x # xs) c)"

fun lazy_star :: "(codepoint \<Rightarrow> bool) \<Rightarrow> cont \<Rightarrow> cont" where
  "lazy_star p k [] c = k [] c"
| "lazy_star p k (x # xs) c =
     (case k (x # xs) c of Some r \<Rightarrow> Some r
      | None \<Rightarrow> if p x then lazy_star p k xs c else None)"

fun rmatch :: "regex \<Rightarrow> cont \<Rightarrow> cont" where
  "rmatch (Atom p) k s c = (case s of [] \<Rightarrow> None | x # xs \<Rightarrow> if p x then k xs c else None)"
| "rmatch (Opt r) k s c = (case rmatch r k s c of Some res \<Rightarrow> Some res | None \<Rightarrow> k s c)"
| "rmatch (Star p) k s c = star p k s c"
| "rmatch (LazyStar p) k s c = lazy_star p k s c"
| "rmatch (Seq a b) k s c = rmatch a (rmatch b k) s c"
| "rmatch (Group n r) k s c =
     rmatch r (\<lambda>s' c'. k s' (c'(n := Some (take (length s - length s') s)))) s c"

definition tag_pattern :: regex where
  "tag_pattern =
     Seq (Lit lt)
    (Seq (Group 1 (Opt (Lit slash)))
    (Seq (Group 2 (Plus name_char))
    (Seq (Opt (Seq (Plus isspace) (LazyStar not_gt)))
    (Seq (Group 3 (Seq (Opt (Lit slash)) (Star isspace)))
         (Lit gt)))))"

text \<open>
  \<open>pattern.match\<close> at the front of \<open>s\<close>: the text after the match and the groups, or None.
\<close>

definition match_at :: "str \<Rightarrow> (str \<times> caps) option" where
  "match_at s = rmatch tag_pattern (\<lambda>s' c. Some (s', c)) s (\<lambda>n. None)"

subsection \<open>The matcher only moves forward\<close>

text \<open>The matcher only moves forward: what it leaves is an end piece of what it was given.\<close>

definition within :: "cont \<Rightarrow> bool" where
  "within k \<longleftrightarrow> (\<forall>s c res. k s c = Some res \<longrightarrow> suffix (fst res) s)"

lemma withinD: "within k \<Longrightarrow> k s c = Some (r, c') \<Longrightarrow> suffix r s"
  unfolding within_def by fastforce

lemma withinI: "(\<And>s c r c'. k s c = Some (r, c') \<Longrightarrow> suffix r s) \<Longrightarrow> within k"
  unfolding within_def by auto

lemma star_suffix:
  assumes "within k"
  shows "star p k s c = Some (r, c') \<Longrightarrow> suffix r s"
proof (induction s)
  case Nil
  then have "k [] c = Some (r, c')" by simp
  then show ?case by (rule withinD [OF assms])
next
  case (Cons x xs)
  show ?case
  proof (cases "p x \<and> star p k xs c \<noteq> None")
    case True
    with Cons.prems have "star p k xs c = Some (r, c')" by (auto split: option.splits)
    then show ?thesis using Cons.IH by (simp add: suffix_Cons)
  next
    case False
    with Cons.prems have "k (x # xs) c = Some (r, c')" by (auto split: if_splits option.splits)
    then show ?thesis by (rule withinD [OF assms])
  qed
qed

lemma lazy_star_suffix:
  assumes "within k"
  shows "lazy_star p k s c = Some (r, c') \<Longrightarrow> suffix r s"
proof (induction s)
  case Nil
  then have "k [] c = Some (r, c')" by simp
  then show ?case by (rule withinD [OF assms])
next
  case (Cons x xs)
  show ?case
  proof (cases "k (x # xs) c")
    case None
    with Cons.prems have "lazy_star p k xs c = Some (r, c')" by (auto split: if_splits)
    then show ?thesis using Cons.IH by (simp add: suffix_Cons)
  next
    case (Some a)
    with Cons.prems have "k (x # xs) c = Some (r, c')" by simp
    then show ?thesis by (rule withinD [OF assms])
  qed
qed

lemma rmatch_within: "within k \<Longrightarrow> within (rmatch r k)"
proof (induction r arbitrary: k)
  case (Atom p)
  show ?case
  proof (rule withinI)
    fix s c r c' assume a: "rmatch (Atom p) k s c = Some (r, c')"
    then obtain x xs where s: "s = x # xs" and "k xs c = Some (r, c')"
      by (cases s) (auto split: if_splits)
    then have "suffix r xs" using withinD [OF Atom.prems] by blast
    then show "suffix r s" by (simp add: s suffix_Cons)
  qed
next
  case (Opt r0)
  show ?case
  proof (rule withinI)
    fix s c r c' assume a: "rmatch (Opt r0) k s c = Some (r, c')"
    then have "rmatch r0 k s c = Some (r, c') \<or> k s c = Some (r, c')"
      by (auto split: option.splits)
    then show "suffix r s"
      using withinD [OF Opt.IH [OF Opt.prems]] withinD [OF Opt.prems] by blast
  qed
next
  case (Star p)
  show ?case
  proof (rule withinI)
    fix s c r c' assume "rmatch (Star p) k s c = Some (r, c')"
    then have "star p k s c = Some (r, c')" by simp
    then show "suffix r s" by (rule star_suffix [OF Star.prems])
  qed
next
  case (LazyStar p)
  show ?case
  proof (rule withinI)
    fix s c r c' assume "rmatch (LazyStar p) k s c = Some (r, c')"
    then have "lazy_star p k s c = Some (r, c')" by simp
    then show "suffix r s" by (rule lazy_star_suffix [OF LazyStar.prems])
  qed
next
  case (Seq a b)
  then show ?case by simp
next
  case (Group n r0)
  show ?case
  proof (rule withinI)
    fix s c r c' assume a: "rmatch (Group n r0) k s c = Some (r, c')"
    let ?k = "\<lambda>s' c'. k s' (c'(n := Some (take (length s - length s') s)))"
    have "within ?k"
    proof (rule withinI)
      fix s' c0 r' c1 assume "?k s' c0 = Some (r', c1)"
      then show "suffix r' s'" by (rule withinD [OF Group.prems])
    qed
    then have "within (rmatch r0 ?k)" by (rule Group.IH)
    moreover from a have "rmatch r0 ?k s c = Some (r, c')" by simp
    ultimately show "suffix r s" by (rule withinD)
  qed
qed

lemma match_at_suffix:
  assumes "match_at s = Some (rest, c)"
  shows "\<exists>xs. s = lt # xs \<and> suffix rest xs"
proof -
  let ?k = "\<lambda>s' c. Some (s', c)"
  let ?r = "Seq (Group 1 (Opt (Lit slash)))
    (Seq (Group 2 (Plus name_char))
    (Seq (Opt (Seq (Plus isspace) (LazyStar not_gt)))
    (Seq (Group 3 (Seq (Opt (Lit slash)) (Star isspace)))
         (Lit gt))))"
  have w: "within (rmatch ?r ?k)"
    by (rule rmatch_within) (simp add: within_def)
  from assms obtain xs where s: "s = lt # xs" and m: "rmatch ?r ?k xs (\<lambda>n. None) = Some (rest, c)"
    by (cases s) (auto simp: match_at_def tag_pattern_def Lit_def split: if_splits)
  from withinD [OF w m] s show ?thesis by blast
qed

lemma match_at_shorter: "match_at s = Some (rest, c) \<Longrightarrow> length rest < length s"
  by (auto dest!: match_at_suffix dest: suffix_length_le)

section \<open>The scan\<close>

text \<open>
  A match object: \<open>m.start()\<close>, \<open>m.end()\<close> and \<open>m.group(n)\<close> (None for a group that took
  no part in the match).
\<close>

record match =
  start :: nat
  stop :: nat
  groups :: caps

definition group :: "match \<Rightarrow> nat \<Rightarrow> str option" where
  "group m n = groups m n"

text \<open>
  \<open>re.finditer\<close>: the matches from left to right, none overlapping another. At each
  offset the pattern is tried; after a match the search goes on where the match ended,
  after a failure one character further. (A match of this pattern holds at least its
  \<open><\<close>, so the engine's rule for empty matches never applies.)
  \<open>finditer_from pos s\<close> searches the end piece \<open>s\<close> of the content that starts at offset
  \<open>pos\<close>.
\<close>

function finditer_from :: "nat \<Rightarrow> str \<Rightarrow> match list" where
  "finditer_from pos s =
     (case match_at s of
        Some (rest, c) \<Rightarrow>
          \<lparr>start = pos, stop = pos + (length s - length rest), groups = c\<rparr>
            # finditer_from (pos + (length s - length rest)) rest
      | None \<Rightarrow> (case s of [] \<Rightarrow> [] | x # xs \<Rightarrow> finditer_from (Suc pos) xs))"
  by pat_completeness auto
termination
  by (relation "measure (\<lambda>(pos, s). length s)") (auto dest: match_at_shorter)

declare finditer_from.simps [simp del]

definition finditer :: "str \<Rightarrow> match list" where
  "finditer content = finditer_from 0 content"

text \<open>The three messages the analyzer prints (its f-strings).\<close>

definition unexpected_msg :: "str \<Rightarrow> nat \<Rightarrow> str" where
  "unexpected_msg tag line =
     lit ''Error: Unexpected closing tag </'' @ tag @ lit ''> at line '' @ decimal line"

definition mismatch_msg :: "str \<Rightarrow> nat \<Rightarrow> str \<Rightarrow> nat \<Rightarrow> str" where
  "mismatch_msg last_tag last_line tag line =
     lit ''Error: Mismatched tag. Opened <'' @ last_tag @ lit ''> at line '' @ decimal last_line
       @ lit '', closed </'' @ tag @ lit ''> at line '' @ decimal line"

definition unclosed_msg :: "str \<Rightarrow> nat \<Rightarrow> str" where
  "unclosed_msg tag line =
     lit ''Error: Unclosed tag <'' @ tag @ lit ''> opened at line '' @ decimal line"

definition void_tags :: "str list" where
  "void_tags = [lit ''img'', lit ''br'', lit ''hr'', lit ''input'', lit ''meta'', lit ''link'']"

text \<open>
  What can be raised: \<open>open\<close> or \<open>read\<close> failing, \<open>.strip()\<close> called on the None of a
  group that took no part in the match, and \<open>pop\<close> on an empty list. An error as a result
  stands for the exception leaving \<open>analyze_jsx\<close>.
\<close>

datatype error = OSError | AttributeError | IndexError

text \<open>
  The first four lines of the loop body compute, from the match, the four values the rest
  of the body works with: \<open>line_num\<close>, \<open>is_closing\<close>, \<open>tag_name\<close> and \<open>is_self_closing\<close>.
  The three groups of the pattern take part in every match (\<open>finditer_shape\<close> below); the
  branch for a None group is the error that \<open>None.strip()\<close> raises.
\<close>

record token =
  line_num :: nat
  is_closing :: bool
  tag_name :: str
  is_self_closing :: bool

definition classify :: "str \<Rightarrow> match \<Rightarrow> error + token" where
  "classify content m =
     (case (group m 1, group m 2, group m 3) of
        (Some g1, Some g2, Some g3) \<Rightarrow>
          Inr \<lparr>line_num = count content nl 0 (start m) + 1,
               is_closing = (g1 = [slash]),
               tag_name = g2,
               is_self_closing = (strip g3 = [slash] \<or> g2 \<in> set void_tags)\<rparr>
      | _ \<Rightarrow> Inl AttributeError)"

text \<open>
  The state of the scan: the stack, a Python list whose last element is the top
  (\<open>append\<close> adds at the end, \<open>pop\<close> removes the last element), and the lines printed so far.
\<close>

record state =
  stack :: "(str \<times> nat) list"
  out :: "str list"

definition pop :: "'a list \<Rightarrow> error + ('a \<times> 'a list)" where
  "pop xs = (if xs = [] then Inl IndexError else Inr (last xs, butlast xs))"

text \<open>The rest of the loop body: skip, close or open.\<close>

definition handle :: "state \<Rightarrow> token \<Rightarrow> error + state" where
  "handle st t =
     (if is_self_closing t then Inr st
      else if is_closing t then
        (if stack st = [] then
           Inr (st\<lparr>out := out st @ [unexpected_msg (tag_name t) (line_num t)]\<rparr>)
         else
           (case pop (stack st) of
              Inl e \<Rightarrow> Inl e
            | Inr ((last_tag, last_line), stack') \<Rightarrow>
                if last_tag \<noteq> tag_name t then
                  Inr \<lparr>stack = stack',
                       out = out st @ [mismatch_msg last_tag last_line (tag_name t) (line_num t)]\<rparr>
                else Inr \<lparr>stack = stack', out = out st\<rparr>))
      else Inr (st\<lparr>stack := stack st @ [(tag_name t, line_num t)]\<rparr>))"

definition step :: "str \<Rightarrow> state \<Rightarrow> match \<Rightarrow> error + state" where
  "step content st m = (case classify content m of Inl e \<Rightarrow> Inl e | Inr t \<Rightarrow> handle st t)"

text \<open>The \<open>for\<close> loop over the matches.\<close>

fun loop :: "str \<Rightarrow> state \<Rightarrow> match list \<Rightarrow> error + state" where
  "loop content st [] = Inr st"
| "loop content st (m # ms) =
     (case step content st m of Inl e \<Rightarrow> Inl e | Inr st' \<Rightarrow> loop content st' ms)"

text \<open>The final \<open>while stack:\<close> loop.\<close>

function drain :: "state \<Rightarrow> error + state" where
  "drain st =
     (if stack st = [] then Inr st
      else (case pop (stack st) of
              Inl e \<Rightarrow> Inl e
            | Inr ((tag, line), stack') \<Rightarrow>
                drain \<lparr>stack = stack', out = out st @ [unclosed_msg tag line]\<rparr>))"
  by pat_completeness auto
termination
  by (relation "measure (\<lambda>st. length (stack st))") (auto simp: pop_def)

declare drain.simps [simp del]

text \<open>
  The analysis of a content, from the empty stack with nothing printed, and \<open>analyze_jsx\<close>
  itself: the files that can be opened and read are the domain of \<open>fs\<close>; the result is the
  list of the lines printed. (The unused \<open>tags = re.findall(...)\<close> of the source runs the same
  search once more and has no effect.)
\<close>

definition init :: state where
  "init = \<lparr>stack = [], out = []\<rparr>"

definition scan :: "str \<Rightarrow> error + str list" where
  "scan content =
     (case loop content init (finditer content) of
        Inl e \<Rightarrow> Inl e
      | Inr st \<Rightarrow> (case drain st of Inl e \<Rightarrow> Inl e | Inr st' \<Rightarrow> Inr (out st')))"

definition analyze_jsx :: "(string \<rightharpoonup> str) \<Rightarrow> string \<Rightarrow> error + str list" where
  "analyze_jsx fs file_path =
     (case fs file_path of None \<Rightarrow> Inl OSError | Some content \<Rightarrow> scan content)"

section \<open>The notions the properties are stated with\<close>

text \<open>
  The tokens of a content, in the order of the document, and the loop seen as a run of the
  loop body's second half over them.
\<close>

definition tokens :: "str \<Rightarrow> token list" where
  "tokens content =
     concat (map (\<lambda>m. case classify content m of Inl e \<Rightarrow> [] | Inr t \<Rightarrow> [t]) (finditer content))"

fun run :: "state \<Rightarrow> token list \<Rightarrow> error + state" where
  "run st [] = Inr st"
| "run st (t # ts) = (case handle st t of Inl e \<Rightarrow> Inl e | Inr st' \<Rightarrow> run st' ts)"

text \<open>
  Well-formed, in the words of the specification: every opening tag is matched by exactly one
  closing tag of the same name, in correct nesting order, the self-closing tokens (explicit
  marker or void name) being left out of the matching. Over the list of tokens: the empty
  list; a self-closing token in front of a well-formed list; an opening tag, a well-formed
  list, the closing tag of the same name, and a well-formed list.
\<close>

inductive well_formed :: "token list \<Rightarrow> bool" where
  wf_empty: "well_formed []"
| wf_skip: "is_self_closing v \<Longrightarrow> well_formed ts \<Longrightarrow> well_formed (v # ts)"
| wf_pair: "\<not> is_self_closing a \<Longrightarrow> \<not> is_closing a \<Longrightarrow> \<not> is_self_closing b \<Longrightarrow> is_closing b
            \<Longrightarrow> tag_name a = tag_name b \<Longrightarrow> well_formed ts \<Longrightarrow> well_formed us
            \<Longrightarrow> well_formed (a # ts @ b # us)"

text \<open>
  Which opening tags are still open after a list of tokens, said without the stack.
  A closing tag (not self-closing) closes the most recent tag still open, whatever its name,
  and closes nothing when none is open. So for a tag with \<open>d\<close> tags opened after it and still
  open, \<open>survives d ts\<close> tells whether it is still open after the tokens \<open>ts\<close>: each opening
  tag adds one to \<open>d\<close>, each closing tag takes one away, and the closing tag that comes when
  \<open>d\<close> is 0 closes the tag itself. \<open>pending ts\<close> lists, in the order of the document, the name
  and line of the opening tags of \<open>ts\<close> that are still open at the end of \<open>ts\<close>.
\<close>

fun survives :: "nat \<Rightarrow> token list \<Rightarrow> bool" where
  "survives d [] = True"
| "survives d (t # ts) =
     (if is_self_closing t then survives d ts
      else if is_closing t then 0 < d \<and> survives (d - 1) ts
      else survives (Suc d) ts)"

fun pending :: "token list \<Rightarrow> (str \<times> nat) list" where
  "pending [] = []"
| "pending (t # ts) =
     (if \<not> is_self_closing t \<and> \<not> is_closing t \<and> survives 0 ts
      then [(tag_name t, line_num t)] else []) @ pending ts"

text \<open>A line that reports an unclosed tag, told from the two other messages by its text.\<close>

definition is_unclosed :: "str \<Rightarrow> bool" where
  "is_unclosed l \<longleftrightarrow> prefix (lit ''Error: Unclosed tag <'') l"

text \<open>
  The line of an offset, in the words of the specification: 1 plus the number of newline
  characters of the content before the offset.
\<close>

definition line_at :: "str \<Rightarrow> nat \<Rightarrow> nat" where
  "line_at content pos = 1 + length (filter (\<lambda>c. c = nl) (take pos content))"

text \<open>
  A record \<open>(name, line)\<close> made for one of the first \<open>n\<close> matches of the content: the name is
  the name of that match, the line is the line of its offset.
\<close>

definition opened_at :: "str \<Rightarrow> nat \<Rightarrow> str \<times> nat \<Rightarrow> bool" where
  "opened_at content n r \<longleftrightarrow>
     (\<exists>j. j < n \<and> j < length (finditer content)
        \<and> group (finditer content ! j) 2 = Some (fst r)
        \<and> snd r = line_at content (start (finditer content ! j)))"

text \<open>The number that a row of decimal digits writes.\<close>

definition read_decimal :: "str \<Rightarrow> nat" where
  "read_decimal ds = foldl (\<lambda>a d. 10 * a + (d - 48)) 0 ds"

section \<open>Notions of the proofs\<close>

text \<open>
  The words a capture-free regular expression can match, and the fact that the matcher only
  ever consumes such a word before it calls its continuation.
\<close>

primrec nocap :: "regex \<Rightarrow> bool" where
  "nocap (Atom p) = True"
| "nocap (Opt r) = nocap r"
| "nocap (Star p) = True"
| "nocap (LazyStar p) = True"
| "nocap (Seq a b) = (nocap a \<and> nocap b)"
| "nocap (Group n r) = False"

primrec lang :: "regex \<Rightarrow> str set" where
  "lang (Atom p) = {[x] | x. p x}"
| "lang (Opt r) = insert [] (lang r)"
| "lang (Star p) = {w. list_all p w}"
| "lang (LazyStar p) = {w. list_all p w}"
| "lang (Seq a b) = {u @ v | u v. u \<in> lang a \<and> v \<in> lang b}"
| "lang (Group n r) = lang r"

definition g1_re :: regex where "g1_re = Opt (Lit slash)"

definition g2_re :: regex where "g2_re = Plus name_char"

definition attrs_re :: regex where "attrs_re = Opt (Seq (Plus isspace) (LazyStar not_gt))"

definition g3_re :: regex where "g3_re = Seq (Opt (Lit slash)) (Star isspace)"

text \<open>
  For the proof: of a stack given top first, the records that are still there after \<open>ts\<close>;
  the record at depth \<open>d\<close> has \<open>d\<close> records above it.
\<close>

fun keep_from :: "nat \<Rightarrow> token list \<Rightarrow> 'a list \<Rightarrow> 'a list" where
  "keep_from d ts [] = []"
| "keep_from d ts (x # xs) = (if survives d ts then [x] else []) @ keep_from (Suc d) ts xs"

section \<open>What a match looks like\<close>

lemma star_sound:
  "star p k s c = Some res \<Longrightarrow> \<exists>w s'. s = w @ s' \<and> list_all p w \<and> k s' c = Some res"
proof (induction s)
  case Nil
  then show ?case by simp
next
  case (Cons x xs)
  show ?case
  proof (cases "p x \<and> star p k xs c \<noteq> None")
    case True
    with Cons.prems have "star p k xs c = Some res" by (auto split: option.splits)
    from Cons.IH [OF this] obtain w s' where "xs = w @ s'" "list_all p w" "k s' c = Some res"
      by blast
    with True have "x # xs = (x # w) @ s' \<and> list_all p (x # w) \<and> k s' c = Some res" by simp
    then show ?thesis by blast
  next
    case False
    with Cons.prems have "k (x # xs) c = Some res" by (auto split: if_splits option.splits)
    then have "x # xs = [] @ (x # xs) \<and> list_all p [] \<and> k (x # xs) c = Some res" by simp
    then show ?thesis by blast
  qed
qed

lemma lazy_star_sound:
  "lazy_star p k s c = Some res \<Longrightarrow> \<exists>w s'. s = w @ s' \<and> list_all p w \<and> k s' c = Some res"
proof (induction s)
  case Nil
  then show ?case by simp
next
  case (Cons x xs)
  show ?case
  proof (cases "k (x # xs) c")
    case None
    with Cons.prems have px: "p x" and "lazy_star p k xs c = Some res" by (auto split: if_splits)
    from Cons.IH [OF this(2)] obtain w s' where "xs = w @ s'" "list_all p w" "k s' c = Some res"
      by blast
    with px have "x # xs = (x # w) @ s' \<and> list_all p (x # w) \<and> k s' c = Some res" by simp
    then show ?thesis by blast
  next
    case (Some a)
    with Cons.prems have "k (x # xs) c = Some res" by simp
    then have "x # xs = [] @ (x # xs) \<and> list_all p [] \<and> k (x # xs) c = Some res" by simp
    then show ?thesis by blast
  qed
qed

lemma rmatch_sound:
  "nocap r \<Longrightarrow> rmatch r k s c = Some res \<Longrightarrow> \<exists>w s'. s = w @ s' \<and> w \<in> lang r \<and> k s' c = Some res"
proof (induction r arbitrary: k s)
  case (Atom p)
  then obtain x xs where "s = x # xs" "p x" "k xs c = Some res"
    by (cases s) (auto split: if_splits)
  then have "s = [x] @ xs \<and> [x] \<in> lang (Atom p) \<and> k xs c = Some res" by simp
  then show ?case by blast
next
  case (Opt r)
  from Opt.prems have "rmatch r k s c = Some res \<or> k s c = Some res"
    by (auto split: option.splits)
  then show ?case
  proof
    assume "rmatch r k s c = Some res"
    moreover from Opt.prems(1) have "nocap r" by simp
    ultimately obtain w s' where "s = w @ s'" "w \<in> lang r" "k s' c = Some res"
      using Opt.IH by blast
    then show ?thesis by auto
  next
    assume "k s c = Some res"
    then have "s = [] @ s \<and> [] \<in> lang (Opt r) \<and> k s c = Some res" by simp
    then show ?thesis by blast
  qed
next
  case (Star p)
  then show ?case using star_sound [of p k s c res] by simp
next
  case (LazyStar p)
  then show ?case using lazy_star_sound [of p k s c res] by simp
next
  case (Seq a b)
  from Seq.prems have na: "nocap a" and nb: "nocap b" and m: "rmatch a (rmatch b k) s c = Some res"
    by simp_all
  from Seq.IH(1) [OF na m] obtain u s1 where u: "s = u @ s1" "u \<in> lang a" "rmatch b k s1 c = Some res"
    by blast
  from Seq.IH(2) [OF nb u(3)] obtain v s' where v: "s1 = v @ s'" "v \<in> lang b" "k s' c = Some res"
    by blast
  from u v have "s = (u @ v) @ s' \<and> u @ v \<in> lang (Seq a b) \<and> k s' c = Some res" by auto
  then show ?case by blast
next
  case (Group n r)
  then show ?case by simp
qed

lemma rmatch_group:
  assumes "nocap r" and "rmatch (Group n r) k s c = Some res"
  shows "\<exists>w s'. s = w @ s' \<and> w \<in> lang r \<and> k s' (c(n := Some w)) = Some res"
proof -
  let ?k = "\<lambda>s' c'. k s' (c'(n := Some (take (length s - length s') s)))"
  from assms(2) have "rmatch r ?k s c = Some res" by simp
  from rmatch_sound [OF assms(1) this] obtain w s' where
    "s = w @ s'" "w \<in> lang r" "?k s' c = Some res" by blast
  then have "s = w @ s' \<and> w \<in> lang r \<and> k s' (c(n := Some w)) = Some res" by simp
  then show ?thesis by blast
qed

lemma tag_pattern_parts:
  "tag_pattern = Seq (Lit lt) (Seq (Group 1 g1_re) (Seq (Group 2 g2_re) (Seq attrs_re (Seq (Group 3 g3_re) (Lit gt)))))"
  by (simp add: tag_pattern_def g1_re_def g2_re_def attrs_re_def g3_re_def)

lemma nocap_parts: "nocap g1_re" "nocap g2_re" "nocap attrs_re" "nocap g3_re" "nocap (Lit c)"
  by (simp_all add: g1_re_def g2_re_def attrs_re_def g3_re_def Lit_def Plus_def)

lemma lang_Lit: "lang (Lit c) = {[c]}"
  by (auto simp: Lit_def)

lemma rmatch_Seq: "rmatch (Seq a b) k = rmatch a (rmatch b k)"
  by (rule ext, rule ext) simp

lemma match_at_shape:
  assumes "match_at s = Some (rest, c)"
  shows "\<exists>g1 g2 at g3. s = lt # g1 @ g2 @ at @ g3 @ gt # rest \<and> g1 \<in> lang g1_re \<and> g2 \<in> lang g2_re
           \<and> at \<in> lang attrs_re \<and> g3 \<in> lang g3_re
           \<and> c = (\<lambda>n. None)(1 := Some g1, 2 := Some g2, 3 := Some g3)"
proof -
  let ?k = "\<lambda>s' c. Some (s', c)"
  let ?k5 = "rmatch (Lit gt) ?k"
  let ?k4 = "rmatch (Group 3 g3_re) ?k5"
  let ?k3 = "rmatch attrs_re ?k4"
  let ?k2 = "rmatch (Group 2 g2_re) ?k3"
  let ?k1 = "rmatch (Group 1 g1_re) ?k2"
  let ?c0 = "\<lambda>n::nat. None :: str option"
  from assms have "rmatch (Lit lt) ?k1 s ?c0 = Some (rest, c)"
    by (simp only: match_at_def tag_pattern_parts rmatch_Seq)
  from rmatch_sound [OF nocap_parts(5) this] obtain s1 where
    s1: "s = lt # s1" "?k1 s1 ?c0 = Some (rest, c)" by (auto simp: lang_Lit)
  from rmatch_group [OF nocap_parts(1) s1(2)] obtain g1 s2 where
    s2: "s1 = g1 @ s2" "g1 \<in> lang g1_re" "?k2 s2 (?c0(1 := Some g1)) = Some (rest, c)" by blast
  from rmatch_group [OF nocap_parts(2) s2(3)] obtain g2 s3 where
    s3: "s2 = g2 @ s3" "g2 \<in> lang g2_re" "?k3 s3 (?c0(1 := Some g1, 2 := Some g2)) = Some (rest, c)" by blast
  from rmatch_sound [OF nocap_parts(3) s3(3)] obtain at s4 where
    s4: "s3 = at @ s4" "at \<in> lang attrs_re" "?k4 s4 (?c0(1 := Some g1, 2 := Some g2)) = Some (rest, c)" by blast
  from rmatch_group [OF nocap_parts(4) s4(3)] obtain g3 s5 where
    s5: "s4 = g3 @ s5" "g3 \<in> lang g3_re"
      "?k5 s5 (?c0(1 := Some g1, 2 := Some g2, 3 := Some g3)) = Some (rest, c)" by blast
  from rmatch_sound [OF nocap_parts(5) s5(3)] have
    s6: "s5 = gt # rest" "c = ?c0(1 := Some g1, 2 := Some g2, 3 := Some g3)" by (auto simp: lang_Lit)
  from s1 s2 s3 s4 s5 s6 have "s = lt # g1 @ g2 @ at @ g3 @ gt # rest" by simp
  with s2(2) s3(2) s4(2) s5(2) s6(2) show ?thesis by blast
qed

lemma lang_g1: "g1 \<in> lang g1_re \<longleftrightarrow> g1 = [] \<or> g1 = [slash]"
  by (auto simp: g1_re_def lang_Lit)

lemma lang_g2: "g2 \<in> lang g2_re \<longleftrightarrow> g2 \<noteq> [] \<and> list_all name_char g2"
proof
  assume "g2 \<in> lang g2_re"
  then show "g2 \<noteq> [] \<and> list_all name_char g2" by (auto simp: g2_re_def Plus_def)
next
  assume a: "g2 \<noteq> [] \<and> list_all name_char g2"
  then obtain x xs where "g2 = [x] @ xs" "name_char x" "list_all name_char xs"
    by (cases g2) auto
  then show "g2 \<in> lang g2_re" unfolding g2_re_def Plus_def lang.simps by blast
qed

lemma lang_g3: "g3 \<in> lang g3_re \<longleftrightarrow> (\<exists>ws. list_all isspace ws \<and> (g3 = ws \<or> g3 = slash # ws))"
proof
  assume "g3 \<in> lang g3_re"
  then show "\<exists>ws. list_all isspace ws \<and> (g3 = ws \<or> g3 = slash # ws)"
    by (auto simp: g3_re_def lang_Lit)
next
  assume "\<exists>ws. list_all isspace ws \<and> (g3 = ws \<or> g3 = slash # ws)"
  then obtain ws where ws: "list_all isspace ws" and "g3 = [] @ ws \<or> g3 = [slash] @ ws" by auto
  then have "\<exists>u v. g3 = u @ v \<and> (u = [] \<or> u = [slash]) \<and> list_all isspace v" by blast
  then show "g3 \<in> lang g3_re" by (simp add: g3_re_def lang_Lit)
qed

text \<open>Every match that \<open>finditer\<close> yields is a match of the pattern at its offset.\<close>

lemma finditer_from_match:
  "m \<in> set (finditer_from pos s) \<Longrightarrow>
     \<exists>d rest. d < length s \<and> start m = pos + d \<and> match_at (drop d s) = Some (rest, groups m)
       \<and> stop m = start m + (length s - d - length rest)"
proof (induction pos s rule: finditer_from.induct)
  case (1 pos s)
  show ?case
  proof (cases "match_at s")
    case None
    with "1.prems" obtain x xs where s: "s = x # xs" and m: "m \<in> set (finditer_from (Suc pos) xs)"
      by (cases s) (auto simp: finditer_from.simps [of pos])
    from "1.IH"(1) [OF None s m] obtain d rest where
      "d < length xs" "start m = Suc pos + d" "match_at (drop d xs) = Some (rest, groups m)"
      "stop m = start m + (length xs - d - length rest)" by blast
    then have "Suc d < length s \<and> start m = pos + Suc d \<and> match_at (drop (Suc d) s) = Some (rest, groups m)
       \<and> stop m = start m + (length s - Suc d - length rest)" using s by simp
    then show ?thesis by blast
  next
    case (Some a)
    obtain rest c where a: "a = (rest, c)" by (cases a)
    from Some a have ma: "match_at s = Some (rest, c)" by simp
    from match_at_shorter [OF ma] have len: "length rest < length s" .
    from "1.prems" ma have
      "m = \<lparr>start = pos, stop = pos + (length s - length rest), groups = c\<rparr>
       \<or> m \<in> set (finditer_from (pos + (length s - length rest)) rest)"
      by (simp add: finditer_from.simps [of pos s])
    then show ?thesis
    proof
      assume "m = \<lparr>start = pos, stop = pos + (length s - length rest), groups = c\<rparr>"
      with ma len have "0 < length s \<and> start m = pos + 0 \<and> match_at (drop 0 s) = Some (rest, groups m)
         \<and> stop m = start m + (length s - 0 - length rest)" by auto
      then show ?thesis by blast
    next
      assume m: "m \<in> set (finditer_from (pos + (length s - length rest)) rest)"
      from "1.IH"(2) [OF ma refl m] obtain d r' where d:
        "d < length rest" "start m = pos + (length s - length rest) + d"
        "match_at (drop d rest) = Some (r', groups m)"
        "stop m = start m + (length rest - d - length r')" by blast
      from match_at_suffix [OF ma] have "suffix rest s" by (auto simp: suffix_Cons)
      then obtain pre where pre: "s = pre @ rest" by (auto simp: suffix_def)
      let ?d = "length pre + d"
      from pre d have "?d < length s \<and> start m = pos + ?d \<and> match_at (drop ?d s) = Some (r', groups m)
         \<and> stop m = start m + (length s - ?d - length r')" by simp
      then show ?thesis by blast
    qed
  qed
qed

text \<open>
  The shape of every match of \<open>finditer\<close>: the text at its offset is \<open><\<close>, group 1,
  group 2, the attributes, group 3 and \<open>>\<close>, and the three groups took part.
\<close>

lemma finditer_shape:
  assumes "m \<in> set (finditer content)"
  shows "\<exists>g1 g2 at g3 rest.
           start m < length content
         \<and> drop (start m) content = lt # g1 @ g2 @ at @ g3 @ gt # rest
         \<and> stop m = length content - length rest
         \<and> g1 \<in> lang g1_re \<and> g2 \<in> lang g2_re \<and> at \<in> lang attrs_re \<and> g3 \<in> lang g3_re
         \<and> group m 1 = Some g1 \<and> group m 2 = Some g2 \<and> group m 3 = Some g3"
proof -
  from assms finditer_from_match [of m 0 content] obtain rest where
    d: "start m < length content" "match_at (drop (start m) content) = Some (rest, groups m)"
       "stop m = start m + (length content - start m - length rest)"
    by (auto simp: finditer_def)
  from match_at_shape [OF d(2)] obtain g1 g2 at g3 where
    sh: "drop (start m) content = lt # g1 @ g2 @ at @ g3 @ gt # rest"
        "g1 \<in> lang g1_re" "g2 \<in> lang g2_re" "at \<in> lang attrs_re" "g3 \<in> lang g3_re"
        "groups m = (\<lambda>n. None)(1 := Some g1, 2 := Some g2, 3 := Some g3)"
    by blast
  from sh(1) have "length (drop (start m) content) = length (lt # g1 @ g2 @ at @ g3 @ gt # rest)"
    by simp
  then have "length rest \<le> length content - start m" by simp
  with d(1,3) have st: "stop m = length content - length rest" by simp
  from sh(6) have "group m 1 = Some g1 \<and> group m 2 = Some g2 \<and> group m 3 = Some g3"
    by (simp add: group_def)
  with d(1) sh st show ?thesis by blast
qed

lemma classify_finditer:
  assumes "m \<in> set (finditer content)"
  shows "\<exists>t. classify content m = Inr t"
proof -
  from finditer_shape [OF assms] obtain g1 g2 g3 where
    "group m 1 = Some g1" "group m 2 = Some g2" "group m 3 = Some g3" by blast
  then show ?thesis by (simp add: classify_def)
qed

lemma strip_slash_spaces:
  assumes "list_all isspace ws"
  shows "strip (slash # ws) = [slash]" and "strip ws = []"
proof -
  have ns: "\<not> isspace slash" by (simp add: isspace_def slash_def)
  from assms have a: "\<forall>x\<in>set (rev ws). isspace x" by (simp add: list_all_iff)
  have 1: "dropWhile isspace (slash # ws) = slash # ws" using ns by simp
  have 2: "rev (slash # ws) = rev ws @ [slash]" by simp
  have "dropWhile isspace (rev ws @ [slash]) = dropWhile isspace [slash]"
    by (rule dropWhile_append2) (use a in auto)
  then have 3: "dropWhile isspace (rev ws @ [slash]) = [slash]" using ns by simp
  show "strip (slash # ws) = [slash]" unfolding strip_def 1 2 3 by simp
  from assms have 4: "dropWhile isspace ws = []" by (induction ws) auto
  show "strip ws = []" unfolding strip_def 4 by simp
qed

text \<open>
  For a match of \<open>finditer\<close>, the test \<open>match.group(3).strip() == '/'\<close> holds exactly when
  group 3 begins with \<open>/\<close>, and group 3 is then \<open>/\<close> followed by white space only.
\<close>

lemma finditer_group3:
  assumes "m \<in> set (finditer content)"
  obtains ws where "list_all isspace ws" and "group m 3 = Some ws" and "strip ws \<noteq> [slash]"
  | ws where "list_all isspace ws" and "group m 3 = Some (slash # ws)" and "strip (slash # ws) = [slash]"
proof -
  from finditer_shape [OF assms] obtain g3 where g3: "g3 \<in> lang g3_re" "group m 3 = Some g3" by blast
  from g3(1) obtain ws where ws: "list_all isspace ws" "g3 = ws \<or> g3 = slash # ws"
    by (auto simp: lang_g3)
  from ws(2) show thesis
  proof
    assume "g3 = ws"
    with ws(1) g3(2) strip_slash_spaces(2) [OF ws(1)] show thesis by (auto intro: that(1))
  next
    assume "g3 = slash # ws"
    with ws(1) g3(2) strip_slash_spaces(1) [OF ws(1)] show thesis by (auto intro: that(2))
  qed
qed

section \<open>The scan returns\<close>

lemma handle_returns: "\<exists>st'. handle st t = Inr st'"
  by (simp add: handle_def pop_def split: prod.splits)

lemma loop_returns:
  "(\<And>m. m \<in> set ms \<Longrightarrow> \<exists>t. classify content m = Inr t) \<Longrightarrow> \<exists>st'. loop content st ms = Inr st'"
proof (induction ms arbitrary: st)
  case Nil
  then show ?case by simp
next
  case (Cons m ms)
  from Cons.prems [of m] obtain t where t: "classify content m = Inr t" by auto
  from handle_returns [of st t] obtain st1 where st1: "handle st t = Inr st1" by blast
  from Cons.IH [of st1] Cons.prems obtain st' where "loop content st1 ms = Inr st'" by auto
  with t st1 show ?case by (simp add: step_def)
qed

lemma drain_eq:
  "drain st = Inr \<lparr>stack = [], out = out st @ map (\<lambda>(tag, line). unclosed_msg tag line) (rev (stack st))\<rparr>"
proof (induction "stack st" arbitrary: st rule: rev_induct)
  case Nil
  then show ?case by (simp add: drain.simps [of st])
next
  case (snoc x xs)
  obtain tag line where x: "x = (tag, line)" by (cases x)
  let ?st = "\<lparr>stack = xs, out = out st @ [unclosed_msg tag line]\<rparr>"
  from snoc(2) x have "drain st = drain ?st"
    by (simp add: drain.simps [of st] pop_def flip: snoc(2))
  moreover have "xs = stack ?st" by simp
  note snoc(1) [OF this]
  ultimately show ?case using snoc(2) [symmetric] x by simp
qed

lemma scan_returns: "\<exists>lines. scan content = Inr lines"
proof -
  from loop_returns [of "finditer content" content init] classify_finditer
  obtain st where "loop content init (finditer content) = Inr st" by blast
  then show ?thesis by (simp add: scan_def drain_eq)
qed

lemma drain_init: "drain init = Inr init"
  by (simp add: drain_eq init_def)

lemma state_rebuild: "\<lparr>stack = stack st, out = out st\<rparr> = (st :: state)"
  by simp

section \<open>The scan as a run over the tokens\<close>

lemma loop_run_gen:
  assumes "\<And>m. m \<in> set ms \<Longrightarrow> \<exists>t. classify content m = Inr t"
  shows "loop content st ms
           = run st (concat (map (\<lambda>m. case classify content m of Inl e \<Rightarrow> [] | Inr t \<Rightarrow> [t]) ms))"
  using assms
proof (induction ms arbitrary: st)
  case Nil
  then show ?case by simp
next
  case (Cons m ms)
  from Cons.prems [of m] obtain t where t: "classify content m = Inr t" by auto
  have "\<And>st'. loop content st' ms
     = run st' (concat (map (\<lambda>m. case classify content m of Inl e \<Rightarrow> [] | Inr t \<Rightarrow> [t]) ms))"
    by (rule Cons.IH) (simp add: Cons.prems)
  with t show ?case by (simp add: step_def split: sum.splits)
qed

lemma take_concat_singletons:
  assumes "\<And>x. x \<in> set xs \<Longrightarrow> \<exists>y. f x = [y]"
  shows "take n (concat (map f xs)) = concat (map f (take n xs))"
  using assms
proof (induction xs arbitrary: n)
  case Nil
  then show ?case by simp
next
  case (Cons x xs)
  from Cons.prems [of x] obtain y where y: "f x = [y]" by auto
  have ih: "\<And>k. take k (concat (map f xs)) = concat (map f (take k xs))"
    by (rule Cons.IH) (simp add: Cons.prems)
  show ?case
  proof (cases n)
    case 0
    then show ?thesis by simp
  next
    case (Suc k)
    with y ih [of k] show ?thesis by simp
  qed
qed

lemma loop_run: "loop content st (finditer content) = run st (tokens content)"
  unfolding tokens_def by (rule loop_run_gen) (rule classify_finditer)

lemma loop_run_take:
  "loop content st (take n (finditer content)) = run st (take n (tokens content))"
proof -
  let ?f = "\<lambda>m. case classify content m of Inl e \<Rightarrow> [] | Inr t \<Rightarrow> [t]"
  have "\<And>m. m \<in> set (finditer content) \<Longrightarrow> \<exists>y. ?f m = [y]"
    using classify_finditer by fastforce
  then have "take n (tokens content) = concat (map ?f (take n (finditer content)))"
    unfolding tokens_def by (rule take_concat_singletons)
  moreover have "loop content st (take n (finditer content))
       = run st (concat (map ?f (take n (finditer content))))"
    by (rule loop_run_gen) (auto dest: in_set_takeD intro: classify_finditer)
  ultimately show ?thesis by simp
qed

lemma run_returns: "\<exists>st'. run st ts = Inr st'"
proof (induction ts arbitrary: st)
  case Nil
  then show ?case by simp
next
  case (Cons t ts)
  from handle_returns [of st t] obtain st1 where "handle st t = Inr st1" by blast
  with Cons.IH [of st1] show ?case by simp
qed

lemma classify_tokens: "map (classify content) (finditer content) = map Inr (tokens content)"
proof -
  have "map (classify content) ms
          = map Inr (concat (map (\<lambda>m. case classify content m of Inl e \<Rightarrow> [] | Inr t \<Rightarrow> [t]) ms))"
    if "\<And>m. m \<in> set ms \<Longrightarrow> \<exists>t. classify content m = Inr t" for ms
    using that
  proof (induction ms)
    case Nil
    then show ?case by simp
  next
    case (Cons m ms)
    from Cons.prems [of m] obtain t where "classify content m = Inr t" by auto
    moreover have "map (classify content) ms
          = map Inr (concat (map (\<lambda>m. case classify content m of Inl e \<Rightarrow> [] | Inr t \<Rightarrow> [t]) ms))"
      by (rule Cons.IH) (simp add: Cons.prems)
    ultimately show ?case by simp
  qed
  from this [of "finditer content"] classify_finditer show ?thesis
    unfolding tokens_def by blast
qed

lemma run_well_formed:
  "well_formed ts \<Longrightarrow> run st (ts @ rest) = run st rest"
proof (induction arbitrary: st rest rule: well_formed.induct)
  case wf_empty
  show ?case by simp
next
  case (wf_skip v ts)
  then show ?case by (simp add: handle_def)
next
  case (wf_pair a b ts us)
  let ?st = "st\<lparr>stack := stack st @ [(tag_name a, line_num a)]\<rparr>"
  have "run st ((a # ts @ b # us) @ rest) = run ?st (ts @ (b # us @ rest))"
    using wf_pair.hyps(1,2) by (simp add: handle_def)
  also have "\<dots> = run ?st (b # us @ rest)"
    by (rule wf_pair.IH(1))
  also have "\<dots> = run st (us @ rest)"
    using wf_pair.hyps(3,4,5) by (simp add: handle_def pop_def state_rebuild)
  also have "\<dots> = run st rest"
    by (rule wf_pair.IH(2))
  finally show ?case .
qed

lemma keep_from_skip: "is_self_closing t \<Longrightarrow> keep_from d (t # ts) xs = keep_from d ts xs"
  by (induction xs arbitrary: d) auto

lemma keep_from_open:
  "\<not> is_self_closing t \<Longrightarrow> \<not> is_closing t \<Longrightarrow> keep_from d (t # ts) xs = keep_from (Suc d) ts xs"
  by (induction xs arbitrary: d) auto

lemma keep_from_close:
  "\<not> is_self_closing t \<Longrightarrow> is_closing t \<Longrightarrow> keep_from (Suc d) (t # ts) xs = keep_from d ts xs"
  by (induction xs arbitrary: d) auto

lemma run_stack:
  "run st ts = Inr st' \<Longrightarrow> rev (stack st') = rev (pending ts) @ keep_from 0 ts (rev (stack st))"
proof (induction ts arbitrary: st)
  case Nil
  have "keep_from 0 [] xs = xs" for xs :: "(str \<times> nat) list"
  proof -
    have "keep_from d [] xs = xs" for d by (induction xs arbitrary: d) auto
    then show ?thesis .
  qed
  with Nil show ?case by simp
next
  case (Cons t ts)
  from handle_returns [of st t] obtain st1 where h: "handle st t = Inr st1" by blast
  with Cons.prems have r: "run st1 ts = Inr st'" by simp
  note ih = Cons.IH [OF r]
  consider (skip) "is_self_closing t"
    | (opens) "\<not> is_self_closing t" and "\<not> is_closing t"
    | (unexpected) "\<not> is_self_closing t" and "is_closing t" and "stack st = []"
    | (closing) "\<not> is_self_closing t" and "is_closing t" and "stack st \<noteq> []"
    by blast
  then show ?case
  proof cases
    case skip
    with h have "st1 = st" by (simp add: handle_def)
    with ih skip show ?thesis by (simp add: keep_from_skip)
  next
    case opens
    with h opens have "stack st1 = stack st @ [(tag_name t, line_num t)]" by (auto simp: handle_def)
    with ih opens show ?thesis by (simp add: keep_from_open)
  next
    case unexpected
    with h have "stack st1 = []" by (auto simp: handle_def)
    with ih unexpected show ?thesis by simp
  next
    case closing
    from closing(3) obtain below top where s: "stack st = below @ [top]"
      by (cases "stack st" rule: rev_cases) auto
    with h closing have "stack st1 = below"
      by (auto simp: handle_def pop_def split: prod.splits if_splits)
    with ih closing s show ?thesis by (simp add: keep_from_close)
  qed
qed

lemma run_init_stack: "run init ts = Inr st \<Longrightarrow> stack st = pending ts"
proof -
  assume "run init ts = Inr st"
  from run_stack [OF this] have "rev (stack st) = rev (pending ts)" by (simp add: init_def)
  then show ?thesis by simp
qed

lemma is_unclosed_msgs:
  "is_unclosed (unclosed_msg tag line)"
  "\<not> is_unclosed (unexpected_msg tag line)"
  "\<not> is_unclosed (mismatch_msg last_tag last_line tag line)"
  by (simp_all add: is_unclosed_def unclosed_msg_def unexpected_msg_def mismatch_msg_def)

lemma handle_unclosed_lines:
  "handle st t = Inr st' \<Longrightarrow> filter is_unclosed (out st') = filter is_unclosed (out st)"
  by (auto simp: handle_def pop_def is_unclosed_msgs split: if_splits prod.splits)

lemma run_unclosed_lines:
  "run st ts = Inr st' \<Longrightarrow> filter is_unclosed (out st') = filter is_unclosed (out st)"
proof (induction ts arbitrary: st)
  case Nil
  then show ?case by simp
next
  case (Cons t ts)
  from handle_returns [of st t] obtain st1 where h: "handle st t = Inr st1" by blast
  with Cons.prems have "run st1 ts = Inr st'" by simp
  from Cons.IH [OF this] handle_unclosed_lines [OF h] show ?case by simp
qed

lemma read_decimal_decimal: "read_decimal (decimal n) = n"
proof (induction n rule: decimal.induct)
  case (1 n)
  show ?case
  proof (cases "n < 10")
    case True
    then show ?thesis by (simp add: decimal.simps [of n] read_decimal_def)
  next
    case False
    with "1.IH" have "read_decimal (decimal (n div 10)) = n div 10" by simp
    with False show ?thesis
      by (simp add: decimal.simps [of n] read_decimal_def)
  qed
qed

lemma pending_subset: "r \<in> set (pending ts) \<Longrightarrow> \<exists>t \<in> set ts. r = (tag_name t, line_num t)"
  by (induction ts) (auto split: if_splits)

lemma tokens_nth:
  assumes "j < length (finditer content)"
  shows "j < length (tokens content) \<and> classify content (finditer content ! j) = Inr (tokens content ! j)"
proof -
  have e: "map (classify content) (finditer content) = map Inr (tokens content)"
    by (rule classify_tokens)
  then have "length (finditer content) = length (tokens content)"
    by (metis length_map)
  with assms have j: "j < length (tokens content)" by simp
  from e have "map (classify content) (finditer content) ! j = map Inr (tokens content) ! j" by simp
  with assms j show ?thesis by simp
qed

lemma classify_fields:
  assumes "classify content m = Inr t"
  shows "group m 2 = Some (tag_name t) \<and> line_num t = line_at content (start m)"
  using assms by (auto simp: classify_def count_def line_at_def split: option.splits)

lemma stack_opened_at:
  assumes "loop content init (take n (finditer content)) = Inr st"
  shows "list_all (opened_at content n) (stack st)"
proof -
  from assms have r: "run init (take n (tokens content)) = Inr st" by (simp add: loop_run_take)
  have "opened_at content n r" if "r \<in> set (stack st)" for r
  proof -
    from that run_init_stack [OF r] have "r \<in> set (pending (take n (tokens content)))" by simp
    from pending_subset [OF this] obtain t where
      t: "t \<in> set (take n (tokens content))" "r = (tag_name t, line_num t)" by blast
    from t(1) obtain j where j: "j < n" "j < length (tokens content)" "t = tokens content ! j"
      by (auto simp: in_set_conv_nth)
    have "length (finditer content) = length (tokens content)"
      using classify_tokens [of content] by (metis length_map)
    with j(2) have jl: "j < length (finditer content)" by simp
    from tokens_nth [OF jl] j(3) have "classify content (finditer content ! j) = Inr t" by simp
    from classify_fields [OF this] t(2) j(1) jl show ?thesis
      by (auto simp: opened_at_def)
  qed
  then show ?thesis by (simp add: list_all_iff)
qed

section \<open>A slash parted from the end of the tag by white space\<close>

text \<open>How the matcher decides where its first alternative succeeds.\<close>

lemma star_longest:
  assumes "list_all p w" and "s' = [] \<or> \<not> p (hd s')" and "k s' c = Some res"
  shows "star p k (w @ s') c = Some res"
  using assms(1)
proof (induction w)
  case Nil
  from assms(2,3) show ?case by (cases s') auto
next
  case (Cons x w)
  then show ?case by simp
qed

lemma lazy_star_hit: "k s c = Some res \<Longrightarrow> lazy_star p k s c = Some res"
  by (cases s) auto

lemma lazy_star_skip:
  assumes "list_all p w" and "\<And>i. i < length w \<Longrightarrow> k (drop i w @ s') c = None"
  shows "lazy_star p k (w @ s') c = lazy_star p k s' c"
  using assms
proof (induction w)
  case Nil
  then show ?case by simp
next
  case (Cons x w)
  from Cons.prems(2) [of 0] have "k (x # w @ s') c = None" by simp
  moreover have "lazy_star p k (w @ s') c = lazy_star p k s' c"
  proof (rule Cons.IH)
    from Cons.prems(1) show "list_all p w" by simp
    fix i assume "i < length w"
    with Cons.prems(2) [of "Suc i"] show "k (drop i w @ s') c = None" by simp
  qed
  ultimately show ?case using Cons.prems(1) by simp
qed

lemma space_chars: "isspace x \<Longrightarrow> \<not> name_char x \<and> x \<noteq> slash \<and> x \<noteq> gt \<and> x \<noteq> lt"
  by (auto simp: isspace_def name_char_def slash_def gt_def lt_def)

lemma name_chars: "name_char x \<Longrightarrow> x \<noteq> slash \<and> x \<noteq> gt \<and> x \<noteq> lt"
  by (auto simp: name_char_def slash_def gt_def lt_def)

lemma first_gt_unique:
  assumes "xs @ gt # r = ys @ gt # r'" and "gt \<notin> set xs" and "gt \<notin> set ys"
  shows "xs = ys"
  using assms
proof (induction xs arbitrary: ys)
  case Nil
  then show ?case by (cases ys) auto
next
  case (Cons x xs)
  then show ?case by (cases ys) auto
qed

text \<open>Group 3 and the closing \<open>>\<close>, at a slash followed by white space and \<open>>\<close>: a match.\<close>

lemma group3_at_slash:
  assumes "list_all isspace ws" and "k rest (c(3 := Some (slash # ws))) = Some res"
  shows "rmatch (Group 3 g3_re) (rmatch (Lit gt) k) (slash # ws @ gt # rest) c = Some res"
proof -
  let ?s = "slash # ws @ gt # rest"
  let ?k = "\<lambda>s' c'. rmatch (Lit gt) k s' (c'(3 := Some (take (length ?s - length s') ?s)))"
  have "?k (gt # rest) c = Some res" using assms(2) by (simp add: Lit_def)
  moreover have "gt # rest = [] \<or> \<not> isspace (hd (gt # rest))"
    using space_chars [of gt] by auto
  ultimately have "star isspace ?k (ws @ gt # rest) c = Some res"
    using assms(1) by (intro star_longest)
  then show ?thesis by (simp add: g3_re_def Lit_def)
qed

text \<open>Earlier, with text that holds no \<open>>\<close> before that slash: no match.\<close>

lemma group3_before_slash:
  assumes "v \<noteq> []" and "list_all not_gt v" and "list_all isspace ws"
  shows "rmatch (Group 3 g3_re) (rmatch (Lit gt) k) (v @ slash # ws @ gt # rest) c = None"
proof (rule ccontr)
  assume "rmatch (Group 3 g3_re) (rmatch (Lit gt) k) (v @ slash # ws @ gt # rest) c \<noteq> None"
  then obtain res where
    "rmatch (Group 3 g3_re) (rmatch (Lit gt) k) (v @ slash # ws @ gt # rest) c = Some res" by auto
  from rmatch_group [OF nocap_parts(4) this] obtain g3 s' where
    g: "v @ slash # ws @ gt # rest = g3 @ s'" "g3 \<in> lang g3_re"
       "rmatch (Lit gt) k s' (c(3 := Some g3)) = Some res" by blast
  from rmatch_sound [OF nocap_parts(5) g(3)] obtain r' where "s' = gt # r'"
    by (auto simp: lang_Lit)
  with g(1) have e: "(v @ slash # ws) @ gt # rest = g3 @ gt # r'" by simp
  from g(2) obtain ws' where ws': "list_all isspace ws'" "g3 = ws' \<or> g3 = slash # ws'"
    by (auto simp: lang_g3)
  have sp: "x \<noteq> gt \<and> x \<noteq> slash" if "x \<in> set ws \<or> x \<in> set ws'" for x
    using that assms(3) ws'(1) space_chars [of x] by (auto simp: list_all_iff)
  have sg: "slash \<noteq> gt" by (simp add: slash_def gt_def)
  have "gt \<notin> set v" using assms(2) by (auto simp: list_all_iff not_gt_def)
  moreover have "gt \<notin> set ws" using sp by blast
  ultimately have n1: "gt \<notin> set (v @ slash # ws)" using sg by auto
  have "gt \<notin> set ws'" using sp by blast
  with ws'(2) sg have n2: "gt \<notin> set g3" by auto
  from first_gt_unique [OF e n1 n2] have eq: "v @ slash # ws = g3" .
  have nos: "slash \<notin> set ws'" using sp by blast
  from ws'(2) show False
  proof
    assume "g3 = ws'"
    with eq have "slash \<in> set ws'" by auto
    with nos show False by simp
  next
    assume g3: "g3 = slash # ws'"
    from assms(1) obtain x v' where v: "v = x # v'" by (cases v) auto
    with eq g3 have "v' @ slash # ws = ws'" by simp
    then have "slash \<in> set ws'" by auto
    with nos show False by simp
  qed
qed

lemma rmatch_Stars: "rmatch (Star p) k = star p k" "rmatch (LazyStar p) k = lazy_star p k"
  by (rule ext, rule ext, simp)+

text \<open>The attributes, if any, then group 3 at the slash.\<close>

lemma attrs_then_slash:
  assumes "mid = [] \<or> isspace (hd mid)" and "list_all not_gt mid" and "list_all isspace ws"
    and "k rest (c(3 := Some (slash # ws))) = Some res"
  shows "rmatch attrs_re (rmatch (Group 3 g3_re) (rmatch (Lit gt) k)) (mid @ slash # ws @ gt # rest) c
           = Some res"
proof -
  let ?k4 = "rmatch (Group 3 g3_re) (rmatch (Lit gt) k)"
  let ?end = "slash # ws @ gt # rest"
  have hit: "?k4 ?end c = Some res"
    using assms(3,4) by (rule group3_at_slash)
  show ?thesis
  proof (cases mid)
    case Nil
    have "\<not> isspace slash" using space_chars [of slash] by auto
    with hit Nil show ?thesis by (simp add: attrs_re_def Plus_def)
  next
    case (Cons x mid')
    with assms(1) have x: "isspace x" by simp
    let ?sp = "takeWhile isspace mid'"
    let ?a = "dropWhile isspace mid'"
    have a_ng: "list_all not_gt ?a"
      using assms(2) Cons by (auto simp: list_all_iff dest: set_dropWhileD)
    have "lazy_star not_gt ?k4 (?a @ ?end) c = lazy_star not_gt ?k4 ?end c"
    proof (rule lazy_star_skip [OF a_ng])
      fix i assume i: "i < length ?a"
      then have "drop i ?a \<noteq> []" by simp
      moreover have "list_all not_gt (drop i ?a)"
        using a_ng by (auto simp: list_all_iff dest: in_set_dropD)
      ultimately show "?k4 (drop i ?a @ ?end) c = None"
        using assms(3) by (rule group3_before_slash)
    qed
    also have "\<dots> = Some res" using hit by (rule lazy_star_hit)
    finally have lz: "lazy_star not_gt ?k4 (?a @ ?end) c = Some res" .
    have hd_ns: "?a @ ?end = [] \<or> \<not> isspace (hd (?a @ ?end))"
    proof (cases ?a)
      case Nil
      have "hd (?a @ ?end) = slash" unfolding Nil by simp
      then show ?thesis using space_chars [of slash] by auto
    next
      case (Cons y ys)
      then have "\<not> isspace y" by (metis hd_dropWhile list.sel(1) list.distinct(1))
      moreover have "hd (?a @ ?end) = y" unfolding Cons by simp
      ultimately show ?thesis by simp
    qed
    have "list_all isspace ?sp" by (auto simp: list_all_iff dest: set_takeWhileD)
    then have "star isspace (lazy_star not_gt ?k4) (?sp @ (?a @ ?end)) c = Some res"
      using hd_ns lz by (rule star_longest)
    then have "star isspace (lazy_star not_gt ?k4) (mid' @ ?end) c = Some res"
      by (simp flip: append_assoc)
    with x Cons show ?thesis by (simp add: attrs_re_def Plus_def rmatch_Stars)
  qed
qed

text \<open>Group 2, the name, as far as it goes.\<close>

lemma name_then:
  assumes "name \<noteq> []" and "list_all name_char name"
    and "tail = [] \<or> \<not> name_char (hd tail)"
    and "k tail (c(2 := Some name)) = Some res"
  shows "rmatch (Group 2 g2_re) k (name @ tail) c = Some res"
proof -
  from assms(1) obtain n ns where name: "name = n # ns" by (cases name) auto
  let ?s = "name @ tail"
  let ?k = "\<lambda>s' c'. k s' (c'(2 := Some (take (length ?s - length s') ?s)))"
  have "?k tail c = Some res" using assms(4) by simp
  moreover from assms(2) name have "list_all name_char ns" by simp
  ultimately have "star name_char ?k (ns @ tail) c = Some res"
    using assms(3) by (intro star_longest)
  with assms(2) name show ?thesis by (simp add: g2_re_def Plus_def)
qed

text \<open>Group 1, the slash of a closing tag or nothing.\<close>

lemma slash_opt_then:
  assumes "g1 = [] \<or> g1 = [slash]"
    and "tail \<noteq> [] \<and> hd tail \<noteq> slash"
    and "k tail (c(1 := Some g1)) = Some res"
  shows "rmatch (Group 1 g1_re) k (g1 @ tail) c = Some res"
proof -
  from assms(2) obtain x xs where tail: "tail = x # xs" "x \<noteq> slash" by (cases tail) auto
  from assms(1) show ?thesis
  proof
    assume "g1 = []"
    with assms(3) tail show ?thesis by (simp add: g1_re_def Lit_def)
  next
    assume "g1 = [slash]"
    with assms(3) show ?thesis by (simp add: g1_re_def Lit_def)
  qed
qed

lemma rmatch_Lit_hit: "rmatch (Lit x) k (x # s) c = k s c"
  by (simp add: Lit_def)

lemma match_at_spaced_slash:
  assumes "g1 = [] \<or> g1 = [slash]" and "name \<noteq> []" and "list_all name_char name"
    and "mid = [] \<or> isspace (hd mid)" and "list_all not_gt mid"
    and "list_all isspace ws"
  shows "match_at (lt # g1 @ name @ mid @ slash # ws @ gt # rest)
           = Some (rest, (\<lambda>n. None)(1 := Some g1, 2 := Some name, 3 := Some (slash # ws)))"
proof -
  let ?k = "\<lambda>s' (c :: caps). Some (s', c)"
  let ?e = "\<lambda>n::nat. None :: str option"
  let ?c = "?e(1 := Some g1, 2 := Some name, 3 := Some (slash # ws))"
  let ?t3 = "mid @ slash # ws @ gt # rest"
  let ?k4 = "rmatch (Group 3 g3_re) (rmatch (Lit gt) ?k)"
  have 3: "rmatch attrs_re ?k4 ?t3 (?e(1 := Some g1, 2 := Some name)) = Some (rest, ?c)"
    using assms(4,5,6) by (rule attrs_then_slash) simp
  have h3: "?t3 = [] \<or> \<not> name_char (hd ?t3)"
  proof (cases mid)
    case Nil
    then show ?thesis using name_chars [of slash] by auto
  next
    case (Cons x xs)
    with assms(4) show ?thesis using space_chars [of x] by auto
  qed
  have 2: "rmatch (Group 2 g2_re) (rmatch attrs_re ?k4) (name @ ?t3) (?e(1 := Some g1)) = Some (rest, ?c)"
    using assms(2,3) h3 3 by (rule name_then)
  from assms(2,3) have h2: "name @ ?t3 \<noteq> [] \<and> hd (name @ ?t3) \<noteq> slash"
    using name_chars [of "hd name"] by (cases name) auto
  have 1: "rmatch (Group 1 g1_re) (rmatch (Group 2 g2_re) (rmatch attrs_re ?k4)) (g1 @ name @ ?t3) ?e
             = Some (rest, ?c)"
    using assms(1) h2 2 by (rule slash_opt_then)
  have "match_at (lt # g1 @ name @ ?t3)
          = rmatch (Group 1 g1_re) (rmatch (Group 2 g2_re) (rmatch attrs_re ?k4)) (g1 @ name @ ?t3) ?e"
    unfolding match_at_def tag_pattern_parts rmatch_Seq by (rule rmatch_Lit_hit)
  with 1 show ?thesis by simp
qed

section \<open>Running the analyzer on a given text\<close>

text \<open>The equations that evaluate the scan of a text that is written out.\<close>

lemmas eval_defs = scan_def init_def finditer_def finditer_from.simps match_at_def tag_pattern_def
  Lit_def Plus_def lt_def gt_def slash_def nl_def name_char_def isspace_def not_gt_def
  step_def classify_def handle_def group_def strip_def count_def void_tags_def pop_def
  drain.simps unclosed_msg_def mismatch_msg_def unexpected_msg_def decimal.simps

section \<open>The properties\<close>

subsection \<open>Well-formed input prints nothing\<close>

text \<open>
  C1. For every content that is well-formed, the scan prints no line at all. Well-formed
  is \<open>well_formed\<close> of the tokens of the content: every opening tag is matched by exactly one
  closing tag of the same name, in correct nesting order, and the self-closing tokens
  (explicit marker or void name) are left out of the matching.
\<close>

theorem well_formed_no_diagnostics:
  assumes "well_formed (tokens content)"
  shows "scan content = Inr []"
proof -
  have "loop content init (finditer content) = run init (tokens content @ [])"
    by (simp add: loop_run)
  also have "\<dots> = run init []"
    using assms by (rule run_well_formed)
  finally have "loop content init (finditer content) = Inr init" by simp
  then show ?thesis by (simp add: scan_def drain_init) (simp add: init_def)
qed

theorem well_formed_no_diagnostics_witness:
  "well_formed (tokens (lit ''<div><br><span></span></div>''))
   \<and> scan (lit ''<div><br><span></span></div>'') = Inr []"
proof -
  let ?c = "lit ''<div><br><span></span></div>''"
  let ?o = "\<lambda>n. \<lparr>line_num = 1, is_closing = False, tag_name = n, is_self_closing = False\<rparr>"
  let ?c' = "\<lambda>n. \<lparr>line_num = 1, is_closing = True, tag_name = n, is_self_closing = False\<rparr>"
  let ?br = "\<lparr>line_num = 1, is_closing = False, tag_name = lit ''br'', is_self_closing = True\<rparr>"
  have t: "tokens ?c = [?o (lit ''div''), ?br, ?o (lit ''span''), ?c' (lit ''span''), ?c' (lit ''div'')]"
    by (simp add: tokens_def eval_defs)
  have s: "well_formed [?o (lit ''span''), ?c' (lit ''span'')]"
    using wf_pair [of "?o (lit ''span'')" "?c' (lit ''span'')" "[]" "[]"] wf_empty by simp
  have b: "well_formed [?br, ?o (lit ''span''), ?c' (lit ''span'')]"
    using wf_skip [of ?br, OF _ s] by simp
  have "well_formed [?o (lit ''div''), ?br, ?o (lit ''span''), ?c' (lit ''span''), ?c' (lit ''div'')]"
    using wf_pair [of "?o (lit ''div'')" "?c' (lit ''div'')" "[?br, ?o (lit ''span''), ?c' (lit ''span'')]" "[]"]
      b wf_empty by simp
  with t have w: "well_formed (tokens ?c)" by simp
  from well_formed_no_diagnostics [OF w] w show ?thesis by simp
qed

subsection \<open>A closing tag on a stack that is not empty\<close>




subsection \<open>The tags left open at the end\<close>

text \<open>
  C3. When the loop over the tokens is over, the records left on the stack are the opening
  tags still open, each with its name and with the line of its \<open><\<close>, in the order they were
  opened. For each of them one line is printed, from the top of the stack down (the tag
  opened last comes first), and the line printed is the text
  \<open>Error: Unclosed tag <name> opened at line n\<close> with the name of the record and the decimal
  digits of its line. No other line of the output reports an unclosed tag, so the number of
  such lines is the depth of the stack at the end of the loop.
\<close>

theorem unclosed_tags_reported:
  "\<exists>st. loop content init (finditer content) = Inr st
      \<and> stack st = pending (tokens content)
      \<and> list_all (opened_at content (length (finditer content))) (stack st)
      \<and> scan content
          = Inr (out st
                 @ map (\<lambda>(tag, line). lit ''Error: Unclosed tag <'' @ tag
                                         @ lit ''> opened at line '' @ decimal line)
                       (rev (stack st)))
      \<and> filter is_unclosed (out st) = []
      \<and> length (filter is_unclosed
           (out st
            @ map (\<lambda>(tag, line). lit ''Error: Unclosed tag <'' @ tag
                                    @ lit ''> opened at line '' @ decimal line)
                  (rev (stack st)))) = length (stack st)
      \<and> (\<forall>k. read_decimal (decimal k) = k)"
proof -
  let ?text = "\<lambda>(tag, line). lit ''Error: Unclosed tag <'' @ tag @ lit ''> opened at line '' @ decimal line"
  have tx: "(\<lambda>(tag, line). unclosed_msg tag line) = ?text"
    by (simp add: unclosed_msg_def)
  from run_returns [of init "tokens content"] obtain st where r: "run init (tokens content) = Inr st"
    by blast
  then have l: "loop content init (finditer content) = Inr st" by (simp add: loop_run)
  then have "loop content init (take (length (finditer content)) (finditer content)) = Inr st"
    by simp
  then have rec: "list_all (opened_at content (length (finditer content))) (stack st)"
    by (rule stack_opened_at)
  from run_unclosed_lines [OF r] have o: "filter is_unclosed (out st) = []" by (simp add: init_def)
  have "filter is_unclosed (map (\<lambda>(tag, line). unclosed_msg tag line) xs)
          = map (\<lambda>(tag, line). unclosed_msg tag line) xs" for xs :: "(str \<times> nat) list"
    by (induction xs) (auto simp: is_unclosed_msgs)
  with o have "length (filter is_unclosed
           (out st @ map (\<lambda>(tag, line). unclosed_msg tag line) (rev (stack st)))) = length (stack st)"
    by simp
  then have n: "length (filter is_unclosed (out st @ map ?text (rev (stack st)))) = length (stack st)"
    unfolding tx .
  from l have "scan content
      = Inr (out st @ map (\<lambda>(tag, line). unclosed_msg tag line) (rev (stack st)))"
    by (simp add: scan_def drain_eq)
  then have s: "scan content = Inr (out st @ map ?text (rev (stack st)))"
    unfolding tx .
  from l run_init_stack [OF r] rec s o n read_decimal_decimal show ?thesis by blast
qed

theorem unclosed_tags_reported_witness:
  "loop (lit ''<a>'' @ [nl] @ lit ''<b>'' @ [nl, nl, nl, nl, nl, nl, nl, nl, nl, nl] @ lit ''<c>'') init
        (finditer (lit ''<a>'' @ [nl] @ lit ''<b>'' @ [nl, nl, nl, nl, nl, nl, nl, nl, nl, nl] @ lit ''<c>''))
     = Inr \<lparr>stack = [(lit ''a'', 1), (lit ''b'', 2), (lit ''c'', 12)], out = []\<rparr>
   \<and> scan (lit ''<a>'' @ [nl] @ lit ''<b>'' @ [nl, nl, nl, nl, nl, nl, nl, nl, nl, nl] @ lit ''<c>'')
     = Inr [lit ''Error: Unclosed tag <c> opened at line 12'',
            lit ''Error: Unclosed tag <b> opened at line 2'',
            lit ''Error: Unclosed tag <a> opened at line 1'']"
proof -
  let ?c = "lit ''<a>'' @ [nl] @ lit ''<b>'' @ [nl, nl, nl, nl, nl, nl, nl, nl, nl, nl] @ lit ''<c>''"
  let ?text = "\<lambda>(tag, line). lit ''Error: Unclosed tag <'' @ tag @ lit ''> opened at line '' @ decimal line"
  have l: "loop ?c init (finditer ?c)
     = Inr \<lparr>stack = [(lit ''a'', 1), (lit ''b'', 2), (lit ''c'', 12)], out = []\<rparr>"
    by (simp add: eval_defs)
  from unclosed_tags_reported [of ?c] obtain st where
    st: "loop ?c init (finditer ?c) = Inr st"
        "scan ?c = Inr (out st @ map ?text (rev (stack st)))"
    by blast
  from st(1) l have "st = \<lparr>stack = [(lit ''a'', 1), (lit ''b'', 2), (lit ''c'', 12)], out = []\<rparr>"
    by simp
  with st(2) have "scan ?c = Inr (map ?text [(lit ''c'', 12), (lit ''b'', 2), (lit ''a'', 1)])"
    by simp
  then have "scan ?c
     = Inr [lit ''Error: Unclosed tag <c> opened at line 12'',
            lit ''Error: Unclosed tag <b> opened at line 2'',
            lit ''Error: Unclosed tag <a> opened at line 1'']"
    by (simp add: decimal.simps)
  with l show ?thesis by simp
qed

subsection \<open>A closing tag on an empty stack\<close>




subsection \<open>Self-closing and void tags\<close>

text \<open>
  C5. A token with the explicit self-close marker (group 3 strips to \<open>/\<close>) or with a name of
  the void set \<open>img, br, hr, input, meta, link\<close> takes no part in the stack logic: the loop
  body leaves the stack and the printed lines as they are, whatever they are; it is not
  pushed, pops nothing and prints nothing.
\<close>

theorem self_closing_token_skipped:
  assumes "m \<in> set (finditer content)"
    and "(\<exists>g3. group m 3 = Some g3 \<and> strip g3 = lit ''/'')
         \<or> (\<exists>name. group m 2 = Some name
              \<and> name \<in> {lit ''img'', lit ''br'', lit ''hr'', lit ''input'', lit ''meta'', lit ''link''})"
  shows "step content st m = Inr st"
proof -
  from classify_finditer [OF assms(1)] obtain t where t: "classify content m = Inr t" by blast
  from t assms(2) have "is_self_closing t"
    by (auto simp: classify_def void_tags_def slash_def split: option.splits)
  with t show ?thesis by (simp add: step_def handle_def)
qed

theorem self_closing_token_skipped_witness:
  "finditer (lit ''<img src=x.png>'')
     = [\<lparr>start = 0, stop = 15, groups = (\<lambda>n. None)(1 := Some [], 2 := Some (lit ''img''), 3 := Some [])\<rparr>]
   \<and> step (lit ''<img src=x.png>'') \<lparr>stack = [(lit ''div'', 1)], out = []\<rparr>
        \<lparr>start = 0, stop = 15, groups = (\<lambda>n. None)(1 := Some [], 2 := Some (lit ''img''), 3 := Some [])\<rparr>
     = Inr \<lparr>stack = [(lit ''div'', 1)], out = []\<rparr>
   \<and> scan (lit ''<img src=x.png>'') = Inr []"
proof -
  let ?c = "lit ''<img src=x.png>''"
  let ?m = "\<lparr>start = 0, stop = 15, groups = (\<lambda>n. None)(1 := Some [], 2 := Some (lit ''img''), 3 := Some [])\<rparr>"
  have f: "finditer ?c = [?m]" by (simp add: eval_defs)
  then have "?m \<in> set (finditer ?c)" by simp
  moreover have "group ?m 2 = Some (lit ''img'')" by (simp add: group_def)
  ultimately have "step ?c \<lparr>stack = [(lit ''div'', 1)], out = []\<rparr> ?m = Inr \<lparr>stack = [(lit ''div'', 1)], out = []\<rparr>"
    by (intro self_closing_token_skipped) auto
  moreover have "scan ?c = Inr []" by (simp add: eval_defs)
  ultimately show ?thesis using f by simp
qed

subsection \<open>Line numbers\<close>

text \<open>
  C6. Take the scan at any of its points: the first \<open>n\<close> matches are done, \<open>m\<close> is the next.
  The offset \<open>start m\<close> is the place of the \<open><\<close> of the tag, and \<open>L\<close>, its line, is 1 plus the
  number of newline characters of the content before that offset. Every record on the stack
  was made for one of the matches done, with its name and its line. Then whatever the loop
  body prints and pushes for \<open>m\<close> carries \<open>L\<close> as the line of \<open>m\<close>, and the line of the record
  it pops as the line of the tag popped: it prints nothing, or the text
  \<open>Error: Unexpected closing tag </name> at line L\<close>, or the text
  \<open>Error: Mismatched tag. Opened <t0> at line l0, closed </name> at line L\<close> for the record
  \<open>(t0, l0)\<close> popped, or it pushes the record \<open>(name, L)\<close>. When all matches are done, what is
  printed for the records left is \<open>Error: Unclosed tag <tag> opened at line n\<close> with the name
  and line of the record. The line numbers are written with their decimal digits.
\<close>

theorem line_number_of_token:
  assumes "n \<le> length (finditer content)"
  shows "\<exists>st. loop content init (take n (finditer content)) = Inr st
      \<and> list_all (opened_at content n) (stack st)
      \<and> (n = length (finditer content) \<longrightarrow>
            scan content
              = Inr (out st
                     @ map (\<lambda>(tag, line). lit ''Error: Unclosed tag <'' @ tag
                                             @ lit ''> opened at line '' @ decimal line)
                           (rev (stack st))))
      \<and> (n < length (finditer content) \<longrightarrow>
            (\<exists>m name L.
               m = finditer content ! n \<and> group m 2 = Some name
             \<and> start m < length content \<and> content ! start m = lt
             \<and> L = 1 + length (filter (\<lambda>c. c = nl) (take (start m) content))
             \<and> (step content st m = Inr st
                \<or> step content st m
                    = Inr (st\<lparr>out := out st @ [lit ''Error: Unexpected closing tag </'' @ name
                                                 @ lit ''> at line '' @ decimal L]\<rparr>)
                \<or> step content st m = Inr (st\<lparr>stack := stack st @ [(name, L)]\<rparr>)
                \<or> (\<exists>below t0 l0.
                      stack st = below @ [(t0, l0)]
                    \<and> (step content st m = Inr \<lparr>stack = below, out = out st\<rparr>
                       \<or> step content st m
                           = Inr \<lparr>stack = below,
                                  out = out st @ [lit ''Error: Mismatched tag. Opened <'' @ t0
                                                  @ lit ''> at line '' @ decimal l0
                                                  @ lit '', closed </'' @ name
                                                  @ lit ''> at line '' @ decimal L]\<rparr>)))))
      \<and> (\<forall>k. read_decimal (decimal k) = k)"
proof -
  from run_returns [of init "take n (tokens content)"] obtain st where
    r: "run init (take n (tokens content)) = Inr st" by blast
  then have l: "loop content init (take n (finditer content)) = Inr st"
    by (simp add: loop_run_take)
  have rec: "list_all (opened_at content n) (stack st)"
    using l by (rule stack_opened_at)
  have fin: "scan content
              = Inr (out st
                     @ map (\<lambda>(tag, line). lit ''Error: Unclosed tag <'' @ tag
                                             @ lit ''> opened at line '' @ decimal line)
                           (rev (stack st)))"
    if "n = length (finditer content)"
  proof -
    from l that have "loop content init (finditer content) = Inr st" by simp
    then show ?thesis by (simp add: scan_def drain_eq unclosed_msg_def)
  qed
  have nxt: "\<exists>m name L.
               m = finditer content ! n \<and> group m 2 = Some name
             \<and> start m < length content \<and> content ! start m = lt
             \<and> L = 1 + length (filter (\<lambda>c. c = nl) (take (start m) content))
             \<and> (step content st m = Inr st
                \<or> step content st m
                    = Inr (st\<lparr>out := out st @ [lit ''Error: Unexpected closing tag </'' @ name
                                                 @ lit ''> at line '' @ decimal L]\<rparr>)
                \<or> step content st m = Inr (st\<lparr>stack := stack st @ [(name, L)]\<rparr>)
                \<or> (\<exists>below t0 l0.
                      stack st = below @ [(t0, l0)]
                    \<and> (step content st m = Inr \<lparr>stack = below, out = out st\<rparr>
                       \<or> step content st m
                           = Inr \<lparr>stack = below,
                                  out = out st @ [lit ''Error: Mismatched tag. Opened <'' @ t0
                                                  @ lit ''> at line '' @ decimal l0
                                                  @ lit '', closed </'' @ name
                                                  @ lit ''> at line '' @ decimal L]\<rparr>)))"
    if more: "n < length (finditer content)"
  proof -
    let ?m = "finditer content ! n"
    let ?L = "1 + length (filter (\<lambda>c. c = nl) (take (start ?m) content))"
    from more have mem: "?m \<in> set (finditer content)" by simp
    from classify_finditer [OF mem] obtain t where t: "classify content ?m = Inr t" by blast
    from classify_fields [OF t] have f: "group ?m 2 = Some (tag_name t)" "line_num t = ?L"
      by (simp_all add: line_at_def)
    from finditer_shape [OF mem] obtain tl where
      s: "start ?m < length content" "drop (start ?m) content = lt # tl" by blast
    from s(1) have "hd (drop (start ?m) content) = content ! start ?m" by (rule hd_drop_conv_nth)
    with s(2) have c: "content ! start ?m = lt" by simp
    have sh: "step content st ?m = handle st t" using t by (simp add: step_def)
    consider (skip) "is_self_closing t"
      | (opens) "\<not> is_self_closing t" and "\<not> is_closing t"
      | (unexpected) "\<not> is_self_closing t" and "is_closing t" and "stack st = []"
      | (closing) "\<not> is_self_closing t" and "is_closing t" and "stack st \<noteq> []"
      by blast
    then have "step content st ?m = Inr st
                \<or> step content st ?m
                    = Inr (st\<lparr>out := out st @ [lit ''Error: Unexpected closing tag </'' @ tag_name t
                                                 @ lit ''> at line '' @ decimal ?L]\<rparr>)
                \<or> step content st ?m = Inr (st\<lparr>stack := stack st @ [(tag_name t, ?L)]\<rparr>)
                \<or> (\<exists>below t0 l0.
                      stack st = below @ [(t0, l0)]
                    \<and> (step content st ?m = Inr \<lparr>stack = below, out = out st\<rparr>
                       \<or> step content st ?m
                           = Inr \<lparr>stack = below,
                                  out = out st @ [lit ''Error: Mismatched tag. Opened <'' @ t0
                                                  @ lit ''> at line '' @ decimal l0
                                                  @ lit '', closed </'' @ tag_name t
                                                  @ lit ''> at line '' @ decimal ?L]\<rparr>))"
    proof cases
      case skip
      then show ?thesis by (simp add: sh handle_def)
    next
      case opens
      then show ?thesis by (simp add: sh handle_def f(2))
    next
      case unexpected
      then show ?thesis by (simp add: sh handle_def f(2) unexpected_msg_def)
    next
      case closing
      from closing(3) obtain below top where "stack st = below @ [top]"
        by (cases "stack st" rule: rev_cases) auto
      then obtain t0 l0 where b: "stack st = below @ [(t0, l0)]" by (cases top) auto
      show ?thesis
      proof (cases "t0 = tag_name t")
        case True
        with closing b have "step content st ?m = Inr \<lparr>stack = below, out = out st\<rparr>"
          by (simp add: sh handle_def pop_def)
        with b show ?thesis by blast
      next
        case False
        with closing b have "step content st ?m
                           = Inr \<lparr>stack = below,
                                  out = out st @ [lit ''Error: Mismatched tag. Opened <'' @ t0
                                                  @ lit ''> at line '' @ decimal l0
                                                  @ lit '', closed </'' @ tag_name t
                                                  @ lit ''> at line '' @ decimal ?L]\<rparr>"
          by (simp add: sh handle_def pop_def f(2) mismatch_msg_def)
        with b show ?thesis by blast
      qed
    qed
    with f(1) s(1) c show ?thesis by blast
  qed
  from l rec fin nxt read_decimal_decimal show ?thesis by blast
qed


theorem line_number_of_token_witness:
  "2 \<le> length (finditer (lit ''<a><b>'' @ [nl] @ lit ''</a>''))
   \<and> loop (lit ''<a><b>'' @ [nl] @ lit ''</a>'') init
          (take 2 (finditer (lit ''<a><b>'' @ [nl] @ lit ''</a>'')))
       = Inr \<lparr>stack = [(lit ''a'', 1), (lit ''b'', 1)], out = []\<rparr>
   \<and> list_all (opened_at (lit ''<a><b>'' @ [nl] @ lit ''</a>'') 2) [(lit ''a'', 1), (lit ''b'', 1)]
   \<and> start (finditer (lit ''<a><b>'' @ [nl] @ lit ''</a>'') ! 2) = 7
   \<and> step (lit ''<a><b>'' @ [nl] @ lit ''</a>'') \<lparr>stack = [(lit ''a'', 1), (lit ''b'', 1)], out = []\<rparr>
          (finditer (lit ''<a><b>'' @ [nl] @ lit ''</a>'') ! 2)
       = Inr \<lparr>stack = [(lit ''a'', 1)],
              out = [lit ''Error: Mismatched tag. Opened <b> at line 1, closed </a> at line 2'']\<rparr>
   \<and> scan (lit ''<a><b>'' @ [nl] @ lit ''</a>'')
       = Inr [lit ''Error: Mismatched tag. Opened <b> at line 1, closed </a> at line 2'',
              lit ''Error: Unclosed tag <a> opened at line 1'']"
proof -
  let ?c = "lit ''<a><b>'' @ [nl] @ lit ''</a>''"
  let ?s = "\<lparr>stack = [(lit ''a'', 1), (lit ''b'', 1)], out = []\<rparr>"
  have len: "length (finditer ?c) = 3" by (simp add: eval_defs)
  then have le: "2 \<le> length (finditer ?c)" by (simp del: append.simps map_append)
  have l: "loop ?c init (take 2 (finditer ?c)) = Inr ?s" by (simp add: eval_defs)
  from line_number_of_token [OF le] obtain st where
    st: "loop ?c init (take 2 (finditer ?c)) = Inr st" "list_all (opened_at ?c 2) (stack st)"
    by blast
  from st(1) l have "st = ?s" by simp
  with st(2) have rec: "list_all (opened_at ?c 2) [(lit ''a'', 1), (lit ''b'', 1)]" by simp
  have s7: "start (finditer ?c ! 2) = 7" by (simp add: eval_defs)
  have sp: "step ?c ?s (finditer ?c ! 2)
       = Inr \<lparr>stack = [(lit ''a'', 1)],
              out = [lit ''Error: Mismatched tag. Opened <b> at line 1, closed </a> at line 2'']\<rparr>"
    by (simp add: eval_defs)
  have sc: "scan ?c
       = Inr [lit ''Error: Mismatched tag. Opened <b> at line 1, closed </a> at line 2'',
              lit ''Error: Unclosed tag <a> opened at line 1'']"
    by (simp add: eval_defs)
  from le l rec s7 sp sc show ?thesis by blast
qed

subsection \<open>The stack during the scan\<close>

text \<open>
  C7, as the code has it. At every point of the scan, after the first \<open>n\<close> tokens for every
  \<open>n\<close>, the stack holds exactly the opening tags seen so far that no later closing tag has
  closed, in the order they were opened with the most recent on top (the end of the list),
  where a closing tag that is not self-closing closes the most recent tag still open,
  whatever its name, and nothing when no tag is open.
\<close>

theorem stack_holds_open_tags:
  "map (classify content) (finditer content) = map Inr (tokens content)
   \<and> (\<exists>st. loop content init (take n (finditer content)) = Inr st
          \<and> stack st = pending (take n (tokens content)))"
proof -
  from run_returns [of init "take n (tokens content)"] obtain st where
    r: "run init (take n (tokens content)) = Inr st" by blast
  then have "loop content init (take n (finditer content)) = Inr st" by (simp add: loop_run_take)
  with run_init_stack [OF r] classify_tokens show ?thesis by blast
qed

text \<open>
  The claim C7 as it is written, with tags matched by the closing tag that corresponds to
  them, fails once a mismatch has occurred. In \<open><a><b></a>\<close> the tokens are the opening tags
  \<open>a\<close> and \<open>b\<close> and the closing tag \<open>a\<close>. At the end the stack holds \<open>a\<close> alone: \<open>b\<close>, for which
  no closing tag has been seen, is not on the stack, and \<open>a\<close>, whose closing tag has been
  seen, is.
\<close>

theorem stack_after_mismatch:
  "map (\<lambda>t. (is_closing t, is_self_closing t, tag_name t)) (tokens (lit ''<a><b></a>''))
     = [(False, False, lit ''a''), (False, False, lit ''b''), (True, False, lit ''a'')]
   \<and> loop (lit ''<a><b></a>'') init (finditer (lit ''<a><b></a>''))
     = Inr \<lparr>stack = [(lit ''a'', 1)],
            out = [lit ''Error: Mismatched tag. Opened <b> at line 1, closed </a> at line 1'']\<rparr>"
  by (simp add: tokens_def eval_defs)

subsection \<open>No error but at the read\<close>

text \<open>
  C8. For every content, however malformed, the scan runs to its end and yields a finite list
  of printed lines, with no error; \<open>analyze_jsx\<close> fails only when the file cannot be opened
  or read, and then with the error of the read.
\<close>

theorem analyze_jsx_fails_only_at_read:
  "(\<exists>lines. scan content = Inr lines)
   \<and> (fs file_path = Some content \<longrightarrow> analyze_jsx fs file_path = scan content)
   \<and> (fs file_path = None \<longrightarrow> analyze_jsx fs file_path = Inl OSError)"
  using scan_returns [of content] by (simp add: analyze_jsx_def)

theorem analyze_jsx_fails_only_at_read_witness:
  "analyze_jsx [''sessions.tsx'' \<mapsto> lit ''</p>''] ''sessions.tsx''
     = Inr [lit ''Error: Unexpected closing tag </p> at line 1'']
   \<and> analyze_jsx Map.empty ''sessions.tsx'' = Inl OSError"
proof -
  have s: "scan (lit ''</p>'') = Inr [lit ''Error: Unexpected closing tag </p> at line 1'']"
    by (simp add: eval_defs)
  from analyze_jsx_fails_only_at_read [of "lit ''</p>''" "[''sessions.tsx'' \<mapsto> lit ''</p>'']" "''sessions.tsx''"]
  have "analyze_jsx [''sessions.tsx'' \<mapsto> lit ''</p>''] ''sessions.tsx'' = scan (lit ''</p>'')"
    by simp
  moreover from analyze_jsx_fails_only_at_read [of "[]" Map.empty "''sessions.tsx''"]
  have "analyze_jsx Map.empty ''sessions.tsx'' = Inl OSError" by simp
  ultimately show ?thesis using s by simp
qed

subsection \<open>Letter case\<close>

text \<open>
  C9. Tag names are compared as written, letter case included: \<open><IMG>\<close> is not a void tag,
  is pushed and is reported unclosed (while \<open><img>\<close> is skipped), and \<open><Div></div>\<close> is a
  mismatch (while \<open><div></div>\<close> is not).
\<close>

theorem tag_names_case_sensitive:
  "loop (lit ''<IMG>'') init (finditer (lit ''<IMG>''))
     = Inr \<lparr>stack = [(lit ''IMG'', 1)], out = []\<rparr>
   \<and> scan (lit ''<IMG>'') = Inr [lit ''Error: Unclosed tag <IMG> opened at line 1'']
   \<and> scan (lit ''<img>'') = Inr []
   \<and> scan (lit ''<Div></div>'')
       = Inr [lit ''Error: Mismatched tag. Opened <Div> at line 1, closed </div> at line 1'']
   \<and> scan (lit ''<div></div>'') = Inr []"
proof -
  have "loop (lit ''<IMG>'') init (finditer (lit ''<IMG>''))
     = Inr \<lparr>stack = [(lit ''IMG'', 1)], out = []\<rparr>"
    by (simp add: eval_defs)
  moreover have "scan (lit ''<IMG>'') = Inr [lit ''Error: Unclosed tag <IMG> opened at line 1'']"
    by (simp add: eval_defs)
  moreover have "scan (lit ''<img>'') = Inr []"
    by (simp add: eval_defs)
  moreover have "scan (lit ''<Div></div>'')
       = Inr [lit ''Error: Mismatched tag. Opened <Div> at line 1, closed </div> at line 1'']"
    by (simp add: eval_defs)
  moreover have "scan (lit ''<div></div>'') = Inr []"
    by (simp add: eval_defs)
  ultimately show ?thesis by blast
qed

subsection \<open>A slash followed by white space\<close>

text \<open>
  C10. Take a tag written as \<open><\<close>, perhaps \<open>/\<close>, a name, perhaps attributes (white space
  first, no \<open>>\<close> in them), then a slash, then white space \<open>ws\<close> of any length, then \<open>>\<close>. When
  the search reaches the place of its \<open><\<close>, it matches the whole tag, group 3 is the slash
  together with the white space after it, the token is classified as self-closing, and the
  loop body leaves the stack and the printed lines as they are: the tag is not pushed.
\<close>

theorem slash_before_spaces_self_closing:
  assumes "g1 = [] \<or> g1 = [slash]" and "name \<noteq> []" and "list_all name_char name"
    and "mid = [] \<or> isspace (hd mid)" and "list_all not_gt mid"
    and "list_all isspace ws"
  shows "\<exists>m. finditer_from pos (lt # g1 @ name @ mid @ slash # ws @ gt # rest)
                = m # finditer_from (pos + length (lt # g1 @ name @ mid @ slash # ws @ [gt])) rest
            \<and> start m = pos
            \<and> group m 2 = Some name \<and> group m 3 = Some (slash # ws)
            \<and> (\<forall>content st. \<exists>t. classify content m = Inr t \<and> is_self_closing t
                                 \<and> step content st m = Inr st)"
proof -
  let ?s = "lt # g1 @ name @ mid @ slash # ws @ gt # rest"
  let ?n = "length (lt # g1 @ name @ mid @ slash # ws @ [gt])"
  let ?c = "(\<lambda>n. None)(1 := Some g1, 2 := Some name, 3 := Some (slash # ws))"
  let ?m = "\<lparr>start = pos, stop = pos + ?n, groups = ?c\<rparr>"
  have ma: "match_at ?s = Some (rest, ?c)"
    using assms by (rule match_at_spaced_slash)
  have "length ?s - length rest = ?n" by simp
  with ma have f: "finditer_from pos ?s = ?m # finditer_from (pos + ?n) rest"
    by (simp add: finditer_from.simps [of pos ?s] del: length_append length_Cons)
  have g: "group ?m 1 = Some g1" "group ?m 2 = Some name" "group ?m 3 = Some (slash # ws)"
    by (simp_all add: group_def)
  have "\<exists>t. classify content ?m = Inr t \<and> is_self_closing t \<and> step content st ?m = Inr st"
    for content st
    using g strip_slash_spaces(1) [OF assms(6)]
    by (simp add: classify_def step_def handle_def)
  with f g show ?thesis by (intro exI [of _ ?m]) simp
qed

theorem slash_before_spaces_self_closing_witness:
  "finditer (lit ''<span / >'')
     = [\<lparr>start = 0, stop = 9,
         groups = (\<lambda>n. None)(1 := Some [], 2 := Some (lit ''span''), 3 := Some (lit ''/ ''))\<rparr>]
   \<and> scan (lit ''<span / >'') = Inr []"
proof -
  have h: "[] = [] \<or> [] = [slash]" "lit ''span'' \<noteq> []" "list_all name_char (lit ''span'')"
    "lit '' '' = [] \<or> isspace (hd (lit '' ''))" "list_all not_gt (lit '' '')"
    "list_all isspace (lit '' '')"
    by (simp_all add: name_char_def isspace_def not_gt_def gt_def)
  from slash_before_spaces_self_closing [OF h, of 0 "[]"] obtain m where
    m: "finditer_from 0 (lt # [] @ lit ''span'' @ lit '' '' @ slash # lit '' '' @ gt # [])
          = m # finditer_from (0 + length (lt # [] @ lit ''span'' @ lit '' '' @ slash # lit '' '' @ [gt])) []"
       "start m = 0" "group m 3 = Some (slash # lit '' '')"
    by blast
  have e: "lt # [] @ lit ''span'' @ lit '' '' @ slash # lit '' '' @ gt # [] = lit ''<span / >''"
    by (simp add: lt_def slash_def gt_def)
  from m(1) have "hd (finditer (lit ''<span / >'')) = m"
    unfolding e finditer_def by simp
  moreover have "finditer (lit ''<span / >'')
     = [\<lparr>start = 0, stop = 9,
         groups = (\<lambda>n. None)(1 := Some [], 2 := Some (lit ''span''), 3 := Some (lit ''/ ''))\<rparr>]"
    by (simp add: eval_defs)
  moreover have "scan (lit ''<span / >'') = Inr []"
    by (simp add: eval_defs)
  ultimately show ?thesis by simp
qed

end
